theory Spec2Isabelle
  imports Main "HOL-Library.Word"
begin

section \<open>The BLE transport of hw-transport-node-ble\<close>

text \<open>
  A shallow embedding of \<^verbatim>\<open>packages/hw-transport-node-ble/src/TransportNodeBLE.js\<close>.
  The module keeps one process-wide object \<^verbatim>\<open>transportsCache\<close>, creates
  \<^verbatim>\<open>BluetoothTransport\<close> objects that are shared by reference (the cache, the
  caller and the \<^verbatim>\<open>onDisconnect\<close> closure all hold the same object), and talks to
  the link stack (noble) through device objects. The model therefore passes an explicit
  \<open>world\<close>: the cache, a store of transport objects, a store of device objects and
  the trace of calls made on the link stack.

  An \<^verbatim>\<open>async\<close> function yields a promise; a promise is resolved, rejected, or
  never settles (the code awaits link events without any timer of its own).

  In the first part each operation of the module (an \<^verbatim>\<open>open\<close>, an exchange, a static
  \<^verbatim>\<open>disconnect\<close>) and each disconnect event runs as a whole, one after the other; what
  the link stack answers in the course of an operation is a parameter of the operation.
  Calls that overlap on one transport are the subject of the second part, on the exchange
  lock.

  The file is not well-formed JavaScript at lines 111 to 113, 242, 271 and 328 (unbalanced
  brackets, \<^verbatim>\<open>throw\<close> as the body of an arrow function). The model follows the evident
  reading: the inner \<^verbatim>\<open>retrieveService\<close> rejects with the error of the discovery or
  resolves with the service and its two characteristics, and the callbacks handed to
  \<^verbatim>\<open>device.disconnect\<close> play no part.

  The device objects are noble peripherals (the file imports noble, connects with
  \<^verbatim>\<open>device.connect(cb)\<close> and discovers with \<^verbatim>\<open>device.discoverServices\<close>): they have
  \<^verbatim>\<open>disconnect(cb)\<close> and no member \<^verbatim>\<open>gatt\<close>, and their characteristics are event
  emitters, whose \<^verbatim>\<open>once\<close> takes an event name and a function.
\<close>

subsection \<open>Data\<close>

type_synonym buffer = "8 word list"

datatype error =
    DisconnectedDevice
  | Error string
  | RangeError
  | EmptyError
  | TypeError
  | ReferenceError
  | LinkFault nat

datatype 'a outcome = Resolved 'a | Rejected error | Pending

text \<open>What one subscription to \<^verbatim>\<open>notifyObservable\<close> delivers, in order. A list that
  ends without \<open>Complete\<close> or \<open>Fail\<close> is a stream that stays silent from then on.\<close>

datatype notification = Next buffer | Complete | Fail error

text \<open>noble's \<^verbatim>\<open>peripheral.state\<close>; \<open>Failed\<close> is its string \<^verbatim>\<open>"error"\<close>.\<close>

datatype link_state = Disconnected | Connecting | Connected | Disconnecting | Failed

text \<open>The listeners this module registers for a device's \<^verbatim>\<open>disconnect\<close> event:
  the \<^verbatim>\<open>onDisconnect\<close> closure of a transport (by the transport's address), and the
  one-shot listener of the reconnect workaround, whose body only builds a resolved promise.\<close>

datatype listener = OnDisconnect nat | OnceResolved

text \<open>The identifier noble gives a peripheral (\<^verbatim>\<open>peripheral.id\<close>) is its address or
  UUID written in lowercase hexadecimal digits without separators; the type
  \<^verbatim>\<open>Device\<close> is declared in \<^verbatim>\<open>./types\<close>, which is not among the sources. An
  identifier is the list of its digits, and \<open>unhex\<close> reads a JavaScript string as an
  identifier when it is one.\<close>

type_synonym ident = "4 word list"

definition hex_digit :: "char \<Rightarrow> 4 word option" where
  "hex_digit c =
     map_of [(CHR ''0'', 0), (CHR ''1'', 1), (CHR ''2'', 2), (CHR ''3'', 3), (CHR ''4'', 4),
             (CHR ''5'', 5), (CHR ''6'', 6), (CHR ''7'', 7), (CHR ''8'', 8), (CHR ''9'', 9),
             (CHR ''a'', 10), (CHR ''b'', 11), (CHR ''c'', 12), (CHR ''d'', 13),
             (CHR ''e'', 14), (CHR ''f'', 15)] c"

fun unhex :: "string \<Rightarrow> ident option" where
  "unhex [] = Some []"
| "unhex (c # cs) =
     (case hex_digit c of
        None \<Rightarrow> None
      | Some n \<Rightarrow> (case unhex cs of None \<Rightarrow> None | Some ns \<Rightarrow> Some (n # ns)))"

text \<open>A noble peripheral. The source's \<^verbatim>\<open>device.id\<close> is the field \<open>dev_id\<close>
  (\<open>id\<close> is HOL's identity function); \<open>localName\<close> is
  \<^verbatim>\<open>advertisement.localName\<close>, \<open>None\<close> when it is undefined.\<close>

record device =
  dev_id :: ident
  uuid :: string
  localName :: "string option"
  state :: link_state
  listeners :: "listener list"

text \<open>A \<^verbatim>\<open>BluetoothTransport\<close>: \<open>id'\<close> is the source's \<^verbatim>\<open>id\<close>, \<open>device\<close>
  the address of its device object.\<close>

record transport =
  id' :: ident
  device :: nat
  mtuSize :: int
  notYetDisconnected :: bool

text \<open>Calls made on the link stack and on timers, as they happen. \<open>EnterOpen\<close> marks
  each entry into the body of \<^verbatim>\<open>open\<close> for a device object. \<open>WriteRefused\<close> is the
  call \<^verbatim>\<open>writeCharacteristic.once("write", false, cb)\<close> made for a frame: it throws, and
  the frame goes no further (see \<open>write'\<close>).\<close>

datatype action =
    EnterOpen nat bool
  | Connect nat
  | DiscoverServices nat
  | Subscribe nat
  | Unsubscribe nat
  | WriteRefused nat buffer
  | Disconnect nat
  | Sleep nat
  | Emit nat

text \<open>\<^verbatim>\<open>transportsCache\<close> is a plain object, \<^verbatim>\<open>{}\<close>. Its own properties are the
  entries that \<^verbatim>\<open>open\<close> stores under the identifiers of devices. Reading
  \<^verbatim>\<open>transportsCache[key]\<close> with an arbitrary string finds an own property, or else a
  member inherited from \<^verbatim>\<open>Object.prototype\<close>, or else \<^verbatim>\<open>undefined\<close>. No identifier
  is the name of an inherited member, since each of these names has a character that is
  not a hexadecimal digit. Every inherited member is a function, or the prototype object
  itself for \<^verbatim>\<open>__proto__\<close>: it is truthy and has no property \<^verbatim>\<open>device\<close>.\<close>

definition inherited :: "string list" where
  "inherited =
     [''constructor'', ''hasOwnProperty'', ''isPrototypeOf'', ''propertyIsEnumerable'',
      ''toLocaleString'', ''toString'', ''valueOf'', ''__proto__'', ''__defineGetter__'',
      ''__defineSetter__'', ''__lookupGetter__'', ''__lookupSetter__'']"

datatype jsvalue = TransportObject nat | PrototypeMember string

definition property :: "(ident \<rightharpoonup> nat) \<Rightarrow> string \<Rightarrow> jsvalue option" where
  "property obj key =
     (case Option.bind (unhex key) obj of
        Some a \<Rightarrow> Some (TransportObject a)
      | None \<Rightarrow> if key \<in> set inherited then Some (PrototypeMember key) else None)"

record world =
  transportsCache :: "ident \<rightharpoonup> nat"
  transports :: "nat \<Rightarrow> transport"
  allocated :: nat
  devices :: "nat \<Rightarrow> device"
  trace :: "action list"

definition call :: "action \<Rightarrow> world \<Rightarrow> world" where
  "call a w = w\<lparr>trace := trace w @ [a]\<rparr>"

definition update_transport :: "nat \<Rightarrow> (transport \<Rightarrow> transport) \<Rightarrow> world \<Rightarrow> world" where
  "update_transport a f w = w\<lparr>transports := (transports w)(a := f (transports w a))\<rparr>"

definition update_device :: "nat \<Rightarrow> (device \<Rightarrow> device) \<Rightarrow> world \<Rightarrow> world" where
  "update_device d f w = w\<lparr>devices := (devices w)(d := f (devices w d))\<rparr>"

subsection \<open>MTU negotiation\<close>

text \<open>\<^verbatim>\<open>buffer.readUInt8(offset)\<close> raises a RangeError outside the buffer.\<close>

definition readUInt8 :: "buffer \<Rightarrow> nat \<Rightarrow> error + int" where
  "readUInt8 b off = (if off < length b then Inr (uint (b ! off)) else Inl RangeError)"

text \<open>
  \<^verbatim>\<open>notifyObservable.pipe(first(b => b.readUInt8(0) === 0x08), map(b => b.readUInt8(5)))\<close>
  merged with the write of the request and turned into a promise. \<^verbatim>\<open>first\<close> fails
  with EmptyError when the stream completes without a match; an exception in the
  predicate or in the projection fails the stream. The write branch emits nothing and
  always completes: \<^verbatim>\<open>write\<close> awaits \<^verbatim>\<open>writeNoble()\<close>, which returns no promise.
\<close>

fun first_mtu :: "notification list \<Rightarrow> int outcome" where
  "first_mtu [] = Pending"
| "first_mtu (Complete # ns) = Rejected EmptyError"
| "first_mtu (Fail e # ns) = Rejected e"
| "first_mtu (Next b # ns) =
     (case readUInt8 b 0 of
        Inl e \<Rightarrow> Rejected e
      | Inr k \<Rightarrow>
          if k = 0x08
          then (case readUInt8 b 5 of Inl e \<Rightarrow> Rejected e | Inr n \<Rightarrow> Resolved n)
          else first_mtu ns)"

text \<open>Modelled from the spec: \<^verbatim>\<open>exchangeAtomicImpl\<close> is a member of the base class
  \<^verbatim>\<open>Transport\<close> of the package hw-transport, which is not among the sources. The spec
  calls it the exchange lock: a job runs under the lock and its result, or its error, is
  handed to the caller; the lock is released on every exit path. In this section
  operations run one after the other, so the lock is free on entry and the job's outcome
  is the call's outcome. The queueing of concurrent callers is the subject of the section
  on the exchange lock below.\<close>

definition exchangeAtomicImpl :: "(world \<Rightarrow> 'a outcome \<times> world) \<Rightarrow> world \<Rightarrow> 'a outcome \<times> world" where
  "exchangeAtomicImpl job w = job w"

text \<open>\<^verbatim>\<open>write\<close> (here \<open>write'\<close>, as \<open>write\<close> is a keyword). \<^verbatim>\<open>writeNoble\<close> builds a
  promise and returns nothing, so \<^verbatim>\<open>write\<close> resolves whatever happens inside. The
  executor of that promise first calls \<^verbatim>\<open>writeCharacteristic.once("write", false, cb)\<close>;
  the emitter refuses a listener that is not a function and throws, the promise nobody
  holds is rejected, and \<^verbatim>\<open>writeCharacteristic.write(buffer, false)\<close> is not reached:
  the frame does not get to the link.\<close>

definition write' :: "nat \<Rightarrow> buffer \<Rightarrow> world \<Rightarrow> world" where
  "write' a b w = call (WriteRefused (device (transports w a)) b) w"

text \<open>The job of \<^verbatim>\<open>inferMTU\<close>: the \<^verbatim>\<open>try\<close> block yields the announced size plus
  3; the \<^verbatim>\<open>catch\<close> block calls \<^verbatim>\<open>device.disconnect\<close> and rethrows.\<close>

definition inferMTU_job :: "notification list \<Rightarrow> nat \<Rightarrow> world \<Rightarrow> int outcome \<times> world" where
  "inferMTU_job ns a w =
     (let w1 = write' a [0x08, 0, 0, 0, 0] w in
      case first_mtu ns of
        Resolved n \<Rightarrow> (Resolved (n + 3), w1)
      | Rejected e \<Rightarrow> (Rejected e, call (Disconnect (device (transports w1 a))) w1)
      | Pending \<Rightarrow> (Pending, w1))"

definition inferMTU :: "notification list \<Rightarrow> nat \<Rightarrow> world \<Rightarrow> int outcome \<times> world" where
  "inferMTU ns a w =
     (case exchangeAtomicImpl (inferMTU_job ns a) w of
        (Resolved mtu, w1) \<Rightarrow>
          if mtu > 23
          then (let mtuSize' = mtu - 3
                in (Resolved mtuSize', update_transport a (\<lambda>t. t\<lparr>mtuSize := mtuSize'\<rparr>) w1))
          else (Resolved (mtuSize (transports w1 a)), w1)
      | (Rejected e, w1) \<Rightarrow> (Rejected e, w1)
      | (Pending, w1) \<Rightarrow> (Pending, w1))"

text \<open>\<^verbatim>\<open>new BluetoothTransport(device, ...)\<close>: the field initialisers and the
  constructor. The new object gets the next free address.\<close>

definition new_transport :: "nat \<Rightarrow> world \<Rightarrow> nat \<times> world" where
  "new_transport d w =
     (let a = allocated w;
          t = \<lparr>id' = dev_id (devices w d), device = d, mtuSize = 20, notYetDisconnected = True\<rparr>
      in (a, w\<lparr>transports := (transports w)(a := t), allocated := Suc a\<rparr>))"

subsection \<open>Disconnect handling\<close>

text \<open>The closure \<^verbatim>\<open>onDisconnect\<close> that \<^verbatim>\<open>open\<close> installs for the transport at
  address \<open>a\<close>.\<close>

definition onDisconnect :: "nat \<Rightarrow> world \<Rightarrow> world" where
  "onDisconnect a w =
     (let w1 = w\<lparr>transportsCache := (transportsCache w)(id' (transports w a) := None)\<rparr>;
          w2 = update_transport a (\<lambda>t. t\<lparr>notYetDisconnected := False\<rparr>) w1;
          w3 = call (Unsubscribe a) w2;
          w4 = update_device (device (transports w3 a))
                 (\<lambda>dv. dv\<lparr>listeners := remove1 (OnDisconnect a) (listeners dv)\<rparr>) w3
      in call (Emit a) w4)"

text \<open>The link stack reports that device \<open>d\<close> has disconnected: noble sets the
  state and emits \<^verbatim>\<open>disconnect\<close>; the emitter calls the listeners registered at
  that moment, in registration order, and drops a one-shot listener as it calls it.\<close>

fun fire :: "nat \<Rightarrow> listener \<Rightarrow> world \<Rightarrow> world" where
  "fire d (OnDisconnect a) w = onDisconnect a w"
| "fire d OnceResolved w =
     update_device d (\<lambda>dv. dv\<lparr>listeners := remove1 OnceResolved (listeners dv)\<rparr>) w"

definition disconnect_event :: "nat \<Rightarrow> world \<Rightarrow> world" where
  "disconnect_event d w =
     (let w1 = update_device d (\<lambda>dv. dv\<lparr>state := Disconnected\<rparr>) w
      in fold (fire d) (listeners (devices w1 d)) w1)"

text \<open>The static \<^verbatim>\<open>disconnect(id)\<close>: what \<^verbatim>\<open>transportsCache[id]\<close> finds is truthy
  unless it is \<^verbatim>\<open>undefined\<close>. For a transport the link stack is asked to disconnect its
  device. For an inherited member \<^verbatim>\<open>transport.device\<close> is \<^verbatim>\<open>undefined\<close>, and calling
  \<^verbatim>\<open>disconnect\<close> on it throws a TypeError, which rejects the promise of the function.\<close>

definition disconnect :: "string \<Rightarrow> world \<Rightarrow> unit outcome \<times> world" where
  "disconnect i w =
     (case property (transportsCache w) i of
        Some (TransportObject a) \<Rightarrow> (Resolved (), call (Disconnect (device (transports w a))) w)
      | Some (PrototypeMember n) \<Rightarrow> (Rejected TypeError, w)
      | None \<Rightarrow> (Resolved (), w))"

subsection \<open>Opening a transport\<close>

text \<open>What the link stack and the clock answer during one pass through the body of
  \<^verbatim>\<open>open\<close>: the error handed to the callback of \<^verbatim>\<open>device.connect\<close> and of
  \<^verbatim>\<open>discoverCharacteristics\<close> (\<open>None\<close> for success), whether the link drops while
  the services are discovered, whether the identifier \<^verbatim>\<open>deviceModel\<close> resolves, the
  notifications seen by the negotiation, and the two readings of \<^verbatim>\<open>Date.now()\<close>.

  \<^verbatim>\<open>deviceModel\<close> is an argument of \<^verbatim>\<open>new BluetoothTransport(...)\<close> at line 135 and is
  declared nowhere in the file (line 13 imports a type of a similar name). The reference
  resolves only if the process has a global variable of that name; otherwise evaluating
  the argument throws a ReferenceError, before the constructor runs.\<close>

record attempt =
  connect_error :: "string option"
  discover_error :: "string option"
  drops_while_discovering :: bool
  deviceModel_bound :: bool
  notifications :: "notification list"
  beforeMTUTime :: int
  afterMTUTime :: int

datatype deviceOrId = Id string | Device nat

text \<open>Lines 85 to 102: connect when the device is disconnected.\<close>

definition connect :: "attempt \<Rightarrow> nat \<Rightarrow> world \<Rightarrow> unit outcome \<times> world" where
  "connect e d w =
     (if state (devices w d) = Disconnected
      then (let w1 = call (Connect d) w in
            case connect_error e of
              Some msg \<Rightarrow> (Rejected (Error msg), update_device d (\<lambda>dv. dv\<lparr>state := Failed\<rparr>) w1)
            | None \<Rightarrow> (Resolved (), update_device d (\<lambda>dv. dv\<lparr>state := Connected\<rparr>) w1))
      else (Resolved (), w))"

text \<open>Lines 104 to 117: the inner \<^verbatim>\<open>retrieveService\<close>.\<close>

definition retrieveService :: "attempt \<Rightarrow> nat \<Rightarrow> world \<Rightarrow> unit outcome \<times> world" where
  "retrieveService e d w =
     (let w1 = call (DiscoverServices d) w;
          w2 = (if drops_while_discovering e then disconnect_event d w1 else w1)
      in case discover_error e of
           Some msg \<Rightarrow> (Rejected (Error msg), w2)
         | None \<Rightarrow> (Resolved (), w2))"

text \<open>The helper \<^verbatim>\<open>disconnect\<close> of the workaround (lines 172 to 178): it registers
  a one-shot listener for the \<^verbatim>\<open>disconnect\<close> event and returns.\<close>

definition workaround_disconnect :: "nat \<Rightarrow> world \<Rightarrow> world" where
  "workaround_disconnect d w =
     update_device d (\<lambda>dv. dv\<lparr>listeners := listeners dv @ [OnceResolved]\<rparr>) w"

text \<open>Lines 85 to 155 of \<^verbatim>\<open>open\<close>: connect, discover, subscribe to the notifications,
  evaluate the arguments of the constructor and construct the transport, give up if the
  device has disconnected meanwhile, otherwise put the transport into the cache and
  install its \<^verbatim>\<open>onDisconnect\<close>.\<close>

definition establish :: "attempt \<Rightarrow> nat \<Rightarrow> world \<Rightarrow> nat outcome \<times> world" where
  "establish e d w =
     (case connect e d w of
        (Rejected err, w1) \<Rightarrow> (Rejected err, w1)
      | (Pending, w1) \<Rightarrow> (Pending, w1)
      | (Resolved u, w1) \<Rightarrow>
     (case retrieveService e d w1 of
        (Rejected err, w2) \<Rightarrow> (Rejected err, w2)
      | (Pending, w2) \<Rightarrow> (Pending, w2)
      | (Resolved u, w2) \<Rightarrow>
     if \<not> deviceModel_bound e then (Rejected ReferenceError, call (Subscribe d) w2)
     else
     (case new_transport d (call (Subscribe d) w2) of
        (a, w3) \<Rightarrow>
          if state (devices w3 d) = Disconnected then (Rejected DisconnectedDevice, w3)
          else (Resolved a,
                update_device d (\<lambda>dv. dv\<lparr>listeners := listeners dv @ [OnDisconnect a]\<rparr>)
                  (w3\<lparr>transportsCache := (transportsCache w3)(id' (transports w3 a) \<mapsto> a)\<rparr>)))))"

text \<open>Lines 157 to 183: the negotiation inside \<^verbatim>\<open>try\<close> and the \<^verbatim>\<open>finally\<close> block,
  which runs when \<^verbatim>\<open>inferMTU\<close> has settled either way. The result is the outcome of
  \<^verbatim>\<open>inferMTU\<close> together with the value of \<^verbatim>\<open>needsReconnect\<close> after the block.\<close>

definition negotiate :: "attempt \<Rightarrow> nat \<Rightarrow> nat \<Rightarrow> bool \<Rightarrow> world \<Rightarrow> (int outcome \<times> bool) \<times> world" where
  "negotiate e d a needsReconnect w =
     (case inferMTU (notifications e) a w of
        (Pending, w1) \<Rightarrow> ((Pending, needsReconnect), w1)
      | (r, w1) \<Rightarrow>
          (let needsReconnect' =
                 (if afterMTUTime e - beforeMTUTime e < 500 then False else needsReconnect)
           in ((r, needsReconnect'),
               if needsReconnect'
               then call (Sleep 1000) (workaround_disconnect d w1)
               else w1)))"

text \<open>\<^verbatim>\<open>open(deviceOrId, needsReconnect)\<close>. The function \<open>env\<close> gives the answers
  of the link stack for each pass through the body, \<open>k\<close> numbers the pass. With a
  string, whatever \<^verbatim>\<open>transportsCache[deviceOrId]\<close> finds is returned when it is truthy,
  be it a transport or an inherited member.\<close>

function open' :: "(nat \<Rightarrow> attempt) \<Rightarrow> nat \<Rightarrow> deviceOrId \<Rightarrow> bool \<Rightarrow> world \<Rightarrow> jsvalue outcome \<times> world" where
  "open' env k (Id i) needsReconnect w =
     (case property (transportsCache w) i of
        Some v \<Rightarrow> (Resolved v, w)
      | None \<Rightarrow> (Rejected DisconnectedDevice, w))"
| "open' env k (Device d) needsReconnect w =
     (case establish (env k) d (call (EnterOpen d needsReconnect) w) of
        (Rejected err, w1) \<Rightarrow> (Rejected err, w1)
      | (Pending, w1) \<Rightarrow> (Pending, w1)
      | (Resolved a, w1) \<Rightarrow>
     (case negotiate (env k) d a needsReconnect w1 of
        ((Pending, again), w2) \<Rightarrow> (Pending, w2)
      | ((Rejected err, again), w2) \<Rightarrow> (Rejected err, w2)
      | ((Resolved m, again), w2) \<Rightarrow>
          if again then open' env (Suc k) (Device d) False w2
          else (Resolved (TransportObject a), w2)))"
  by pat_completeness auto
termination
  by (relation "measure (\<lambda>(env, k, x, needsReconnect, w). if needsReconnect then 1 else 0)")
     (auto simp: negotiate_def Let_def split: prod.splits outcome.splits if_splits)

subsection \<open>Exchange\<close>

text \<open>\<^verbatim>\<open>sendAPDU\<close> and \<^verbatim>\<open>receiveAPDU\<close> are imported from files that are not among
  the sources, so one exchange is described by what they do on the link: the frames that
  \<^verbatim>\<open>sendAPDU\<close> hands to \<^verbatim>\<open>write\<close>, whether the link reports a disconnect while the
  exchange is under way, and how the promise of the merged streams settles.

  In the \<^verbatim>\<open>catch\<close> block, when \<^verbatim>\<open>notYetDisconnected\<close> is set, the code evaluates
  \<^verbatim>\<open>this.device.gatt.disconnect()\<close>. The device is a noble peripheral, which has no
  member \<^verbatim>\<open>gatt\<close>: the expression throws a TypeError inside the \<^verbatim>\<open>catch\<close> block, so
  \<^verbatim>\<open>throw e\<close> is not reached, the promise is rejected with the TypeError, and no call
  asks the link stack to disconnect.\<close>

record exchange_env =
  frames :: "buffer list"
  link_drops :: bool
  merged :: "buffer outcome"

definition exchange_job :: "exchange_env \<Rightarrow> nat \<Rightarrow> world \<Rightarrow> buffer outcome \<times> world" where
  "exchange_job e a w =
     (let w1 = fold (write' a) (frames e) w;
          w2 = (if link_drops e then disconnect_event (device (transports w1 a)) w1 else w1)
      in case merged e of
           Resolved data \<Rightarrow> (Resolved data, w2)
         | Rejected err \<Rightarrow>
             if notYetDisconnected (transports w2 a)
             then (Rejected TypeError, w2)
             else (Rejected err, w2)
         | Pending \<Rightarrow> (Pending, w2))"

definition exchange :: "exchange_env \<Rightarrow> nat \<Rightarrow> world \<Rightarrow> buffer outcome \<times> world" where
  "exchange e a w = exchangeAtomicImpl (exchange_job e a) w"

subsection \<open>Runs of the module\<close>

text \<open>The operations a process performs on the module and the events the link stack
  delivers, one after the other: the static \<^verbatim>\<open>open\<close> (which passes
  \<^verbatim>\<open>needsReconnect = true\<close>), an exchange on an existing transport, the static
  \<^verbatim>\<open>disconnect\<close>, and the disconnect event of a device.\<close>

datatype op =
    Open "nat \<Rightarrow> attempt" deviceOrId
  | Exchange exchange_env nat
  | UserDisconnect string
  | LinkDisconnected nat

fun apply_op :: "op \<Rightarrow> world \<Rightarrow> world" where
  "apply_op (Open env x) w = snd (open' env 0 x True w)"
| "apply_op (Exchange e a) w = (if a < allocated w then snd (exchange e a w) else w)"
| "apply_op (UserDisconnect i) w = snd (disconnect i w)"
| "apply_op (LinkDisconnected d) w = disconnect_event d w"

text \<open>The module as loaded: \<^verbatim>\<open>const transportsCache = {}\<close>, no transport object yet.\<close>

definition boot :: "(nat \<Rightarrow> device) \<Rightarrow> world" where
  "boot devs =
     \<lparr>transportsCache = Map.empty,
      transports = (\<lambda>a. \<lparr>id' = [], device = 0, mtuSize = 20, notYetDisconnected = True\<rparr>),
      allocated = 0,
      devices = devs,
      trace = []\<rparr>"

definition run :: "op list \<Rightarrow> world \<Rightarrow> world" where
  "run ops w = fold apply_op ops w"

subsection \<open>Discovery\<close>

text \<open>The state of one call of \<^verbatim>\<open>listen\<close>: its local variables, whether its
  \<^verbatim>\<open>discover\<close> listener is registered, and the events handed to the observer.\<close>

record listening =
  discoveredDevices :: "string \<rightharpoonup> device"
  unsubscribed :: bool
  registered :: bool
  emitted :: "device list"

text \<open>JavaScript truthiness of \<^verbatim>\<open>advertisement.localName\<close>: undefined and the empty
  string are falsy.\<close>

definition truthy :: "string option \<Rightarrow> bool" where
  "truthy n = (case n of None \<Rightarrow> False | Some s \<Rightarrow> s \<noteq> [])"

definition detectingDevices :: "device \<Rightarrow> listening \<Rightarrow> listening" where
  "detectingDevices peripheral l =
     (if localName peripheral \<noteq> Some ''unknown'' \<and> truthy (localName peripheral)
      then (if discoveredDevices l (uuid peripheral) = None
            then (let l1 = l\<lparr>discoveredDevices := (discoveredDevices l)(uuid peripheral \<mapsto> peripheral)\<rparr>
                  in if \<not> unsubscribed l1 then l1\<lparr>emitted := emitted l1 @ [peripheral]\<rparr> else l1)
            else l)
      else l)"

datatype scan_event = Discover device | Unsubscribed

fun scan :: "scan_event \<Rightarrow> listening \<Rightarrow> listening" where
  "scan (Discover peripheral) l = (if registered l then detectingDevices peripheral l else l)"
| "scan Unsubscribed l = l\<lparr>registered := False, unsubscribed := True\<rparr>"

text \<open>\<^verbatim>\<open>listen(observer)\<close>: \<^verbatim>\<open>requiresBluetooth\<close> throws unless the adapter is
  powered on; otherwise the listener is registered and sees the scan events that follow.
  The result is the list of \<^verbatim>\<open>add\<close> events the observer receives.\<close>

definition listen :: "bool \<Rightarrow> scan_event list \<Rightarrow> error + device list" where
  "listen poweredOn evs =
     (if \<not> poweredOn then Inl (Error ''Bluetooth not ready'')
      else Inr (emitted (fold scan evs
             \<lparr>discoveredDevices = Map.empty, unsubscribed = False, registered = True, emitted = []\<rparr>)))"

section \<open>The exchange lock\<close>

text \<open>
  \<^verbatim>\<open>exchange\<close> and \<^verbatim>\<open>inferMTU\<close> both hand their body to
  \<^verbatim>\<open>this.exchangeAtomicImpl\<close>, and \<^verbatim>\<open>close\<close> awaits \<^verbatim>\<open>this.exchangeBusyPromise\<close>.
  Calls on one transport overlap in time: a call is made, its body writes its frames one
  by one (each \<^verbatim>\<open>write\<close> is awaited), the body settles, and other calls arrive in
  between. This section models one transport as a transition system over these events.

  Modelled from the spec: \<^verbatim>\<open>exchangeAtomicImpl\<close> and \<^verbatim>\<open>exchangeBusyPromise\<close> belong
  to the base class \<^verbatim>\<open>Transport\<close>, which is not among the sources. Following the
  spec, the lock is binary, it is held for the duration of the negotiation and of each
  exchange, callers that find it taken are queued and served in arrival order, and it is
  released on every exit path (\<open>enter\<close> and \<open>release\<close> below). While a job holds the
  lock, \<^verbatim>\<open>exchangeBusyPromise\<close> is that job's promise; it resolves when the job settles.
\<close>

text \<open>Jobs are numbered in the order of the calls. \<open>to_write\<close> holds the frames a job
  has still to write, \<open>write_stream\<close> the frames handed to \<^verbatim>\<open>write\<close> so far and
  by which job, \<open>closes\<close> the value of \<^verbatim>\<open>exchangeBusyPromise\<close> each call of
  \<^verbatim>\<open>close\<close> found, \<open>returned\<close> the calls of \<^verbatim>\<open>close\<close> that have returned.\<close>

record session =
  exchangeBusyPromise :: "nat option"
  waiting :: "nat list"
  calls :: nat
  to_write :: "nat \<Rightarrow> buffer list"
  write_stream :: "(nat \<times> buffer) list"
  settled :: "nat list"
  closes :: "nat option list"
  returned :: "nat list"
  link :: link_state

datatype event =
    ExchangeCalled "buffer list"
  | InferMTUCalled
  | FrameWritten
  | JobSettled
  | CloseCalled
  | CloseReturned nat
  | LinkDropped

definition enter :: "buffer list \<Rightarrow> session \<Rightarrow> session" where
  "enter fs s =
     (let j = calls s;
          s1 = s\<lparr>calls := Suc j, to_write := (to_write s)(j := fs)\<rparr>
      in case exchangeBusyPromise s of
           None \<Rightarrow> s1\<lparr>exchangeBusyPromise := Some j\<rparr>
         | Some h \<Rightarrow> s1\<lparr>waiting := waiting s @ [j]\<rparr>)"

definition release :: "nat \<Rightarrow> session \<Rightarrow> session" where
  "release j s =
     (case waiting s of
        [] \<Rightarrow> s\<lparr>settled := settled s @ [j], exchangeBusyPromise := None\<rparr>
      | k # ks \<Rightarrow> s\<lparr>settled := settled s @ [j], exchangeBusyPromise := Some k, waiting := ks\<rparr>)"

text \<open>\<^verbatim>\<open>close()\<close>: \<^verbatim>\<open>if (this.exchangeBusyPromise) await this.exchangeBusyPromise\<close>.
  Given the value of \<^verbatim>\<open>exchangeBusyPromise\<close> that the call found, this is how far the
  call has got in state \<open>s\<close>: it has returned, or it still awaits the promise.\<close>

definition close :: "nat option \<Rightarrow> session \<Rightarrow> unit outcome" where
  "close found s =
     (case found of
        None \<Rightarrow> Resolved ()
      | Some j \<Rightarrow> if j \<in> set (settled s) then Resolved () else Pending)"

text \<open>One event; \<open>None\<close> when the event cannot happen in the state. The body of
  \<^verbatim>\<open>exchange\<close> writes the frames that \<^verbatim>\<open>sendAPDU\<close> produces, the body of
  \<^verbatim>\<open>inferMTU\<close> the one request frame. A job may settle before all its frames are
  written (an error ends it). A call of \<^verbatim>\<open>close\<close> reads \<^verbatim>\<open>exchangeBusyPromise\<close>; it
  returns, once, when \<open>close\<close> has resolved for the value it read.\<close>

fun step :: "event \<Rightarrow> session \<Rightarrow> session option" where
  "step (ExchangeCalled fs) s = Some (enter fs s)"
| "step InferMTUCalled s = Some (enter [[0x08, 0, 0, 0, 0]] s)"
| "step FrameWritten s =
     (case exchangeBusyPromise s of
        None \<Rightarrow> None
      | Some j \<Rightarrow>
          (case to_write s j of
             [] \<Rightarrow> None
           | f # fs \<Rightarrow>
               Some (s\<lparr>write_stream := write_stream s @ [(j, f)],
                       to_write := (to_write s)(j := fs)\<rparr>)))"
| "step JobSettled s =
     (case exchangeBusyPromise s of
        None \<Rightarrow> None
      | Some j \<Rightarrow> Some (release j s))"
| "step CloseCalled s = Some (s\<lparr>closes := closes s @ [exchangeBusyPromise s]\<rparr>)"
| "step (CloseReturned c) s =
     (if c < length (closes s) \<and> c \<notin> set (returned s) \<and> close (closes s ! c) s = Resolved ()
      then Some (s\<lparr>returned := returned s @ [c]\<rparr>)
      else None)"
| "step LinkDropped s = Some (s\<lparr>link := Disconnected\<rparr>)"

fun steps :: "event list \<Rightarrow> session \<Rightarrow> session option" where
  "steps [] s = Some s"
| "steps (e # es) s = (case step e s of None \<Rightarrow> None | Some s' \<Rightarrow> steps es s')"

text \<open>A transport as the constructor leaves it, on a connected device.\<close>

definition constructed :: session where
  "constructed =
     \<lparr>exchangeBusyPromise = None, waiting = [], calls = 0, to_write = (\<lambda>j. []),
      write_stream = [], settled = [], closes = [], returned = [], link = Connected\<rparr>"

text \<open>The jobs that have had the lock, the job that has it, and the jobs that wait for
  it, in this order.\<close>

definition service_order :: "session \<Rightarrow> nat list" where
  "service_order s =
     settled s @ (case exchangeBusyPromise s of None \<Rightarrow> [] | Some j \<Rightarrow> [j]) @ waiting s"

section \<open>Predicates and concrete inputs\<close>


text \<open>The calls that ask the link stack to disconnect a device.\<close>

fun force_disconnect :: "action \<Rightarrow> bool" where
  "force_disconnect (Disconnect d) = True"
| "force_disconnect x = False"

definition nano :: device where
  "nano = \<lparr>dev_id = [0xf, 3, 0xa, 1], uuid = ''f3a1'', localName = Some ''Nano X'',
            state = Disconnected, listeners = []\<rparr>"

text \<open>The control frame of a peer that announces the packet size \<open>n\<close>.\<close>

definition mtu_frame :: "8 word \<Rightarrow> notification" where
  "mtu_frame n = Next [0x08, 0, 0, 0, 0, n]"

text \<open>A link stack that connects and discovers without error, a process with a global
  variable \<^verbatim>\<open>deviceModel\<close>, and a peer that announces 158; the negotiation is timed at
  \<open>t\<close> milliseconds.\<close>

definition answering :: "int \<Rightarrow> attempt" where
  "answering t =
     \<lparr>connect_error = None, discover_error = None, drops_while_discovering = False,
      deviceModel_bound = True,
      notifications = [mtu_frame 158], beforeMTUTime = 0, afterMTUTime = t\<rparr>"


text \<open>A first pairing: the first negotiation takes 700 ms, a later one 200 ms.\<close>

definition slow_pairing :: "nat \<Rightarrow> attempt" where
  "slow_pairing k = answering (if k = 0 then 700 else 200)"

text \<open>An exchange whose merged streams fail before any frame is written.\<close>

definition failing :: exchange_env where
  "failing = \<lparr>frames = [], link_drops = False, merged = Rejected (LinkFault 0)\<rparr>"

text \<open>The world after that device has been opened once, with a quick negotiation.\<close>

definition opened :: world where
  "opened = snd (open' (\<lambda>k. answering 200) 0 (Device 0) True (boot (\<lambda>d. nano)))"


text \<open>From \<open>w\<close> to \<open>w'\<close> no transport object is lost, every transport that exists in
  \<open>w\<close> keeps its \<open>mtuSize\<close>, and no \<open>mtuSize\<close> falls below 20 if none was below.\<close>

definition budgets_kept :: "world \<Rightarrow> world \<Rightarrow> bool" where
  "budgets_kept w w' =
     (allocated w \<le> allocated w' \<and>
      (\<forall>b<allocated w. mtuSize (transports w' b) = mtuSize (transports w b)) \<and>
      ((\<forall>b. 20 \<le> mtuSize (transports w b)) \<longrightarrow> (\<forall>b. 20 \<le> mtuSize (transports w' b))))"

text \<open>A peripheral whose advertised name is present: defined, not empty, and not the
  literal \<^verbatim>\<open>"unknown"\<close>.\<close>

definition named :: "device \<Rightarrow> bool" where
  "named p = (localName p \<noteq> None \<and> localName p \<noteq> Some [] \<and> localName p \<noteq> Some ''unknown'')"

text \<open>What holds of a transport under the exchange lock at every moment: the jobs are
  served in the order of their calls; nobody waits for a free lock; every frame in the
  write stream comes from a job that has had the lock; the jobs of the frames in the
  write stream never decrease; and a call of \<^verbatim>\<open>close\<close> that has returned found either no
  busy promise or the promise of a job that has settled.\<close>

definition lock_inv :: "session \<Rightarrow> bool" where
  "lock_inv s =
     (service_order s = [0..<calls s] \<and>
      (exchangeBusyPromise s = None \<longrightarrow> waiting s = []) \<and>
      fst ` set (write_stream s) \<subseteq> set (settled s) \<union> set_option (exchangeBusyPromise s) \<and>
      sorted (map fst (write_stream s)) \<and>
      (\<forall>c\<in>set (returned s). c < length (closes s) \<and>
         (\<forall>j. closes s ! c = Some j \<longrightarrow> j \<in> set (settled s))))"

text \<open>Two exchanges called at the same moment, a \<^verbatim>\<open>close\<close> called while the first is
  under way, and everything running to its end.\<close>

definition two_exchanges :: "event list" where
  "two_exchanges =
     [ExchangeCalled [[5, 0, 0], [5, 0, 1]], ExchangeCalled [[5, 0, 0]], CloseCalled,
      FrameWritten, FrameWritten, JobSettled, CloseReturned 0, FrameWritten, JobSettled]"

text \<open>What a scan reports: the device twice, a peripheral that advertises the name
  \<^verbatim>\<open>"unknown"\<close>, one without a name, and, after the caller has unsubscribed, one more.\<close>

definition sightings :: "scan_event list" where
  "sightings =
     [Discover nano,
      Discover (nano\<lparr>uuid := ''0b77'', localName := Some ''unknown''\<rparr>),
      Discover nano,
      Discover (nano\<lparr>uuid := ''0c11'', localName := None\<rparr>),
      Unsubscribed,
      Discover (nano\<lparr>uuid := ''0d42''\<rparr>)]"

text \<open>The entries of the trace that mark a pass through the body of \<^verbatim>\<open>open\<close>.\<close>

fun entered :: "action \<Rightarrow> bool" where
  "entered (EnterOpen d needsReconnect) = True"
| "entered x = False"

section \<open>Reading the fields of a changed world\<close>

lemma call_simps:
  "transportsCache (call x w) = transportsCache w"
  "transports (call x w) = transports w"
  "allocated (call x w) = allocated w"
  "devices (call x w) = devices w"
  "trace (call x w) = trace w @ [x]"
  by (simp_all add: call_def)

lemma update_transport_simps:
  "transportsCache (update_transport a f w) = transportsCache w"
  "transports (update_transport a f w) = (transports w)(a := f (transports w a))"
  "allocated (update_transport a f w) = allocated w"
  "devices (update_transport a f w) = devices w"
  "trace (update_transport a f w) = trace w"
  by (simp_all add: update_transport_def)

lemma update_device_simps:
  "transportsCache (update_device d f w) = transportsCache w"
  "transports (update_device d f w) = transports w"
  "allocated (update_device d f w) = allocated w"
  "devices (update_device d f w) = (devices w)(d := f (devices w d))"
  "trace (update_device d f w) = trace w"
  by (simp_all add: update_device_def)

lemmas world_simps = call_simps update_transport_simps update_device_simps

section \<open>Properties of the negotiation\<close>

lemma first_mtu_frame: "first_mtu (mtu_frame n # ns) = Resolved (uint n)"
  by (simp add: mtu_frame_def readUInt8_def)

lemma inferMTU_resolved:
  "first_mtu ns = Resolved n \<Longrightarrow>
   inferMTU ns a w =
     (if n > 20
      then (Resolved n, update_transport a (\<lambda>t. t\<lparr>mtuSize := n\<rparr>) (write' a [0x08, 0, 0, 0, 0] w))
      else (Resolved (mtuSize (transports w a)), write' a [0x08, 0, 0, 0, 0] w))"
  by (simp add: inferMTU_def exchangeAtomicImpl_def inferMTU_job_def write'_def call_def)

lemma inferMTU_rejected:
  "first_mtu ns = Rejected e \<Longrightarrow>
   inferMTU ns a w =
     (Rejected e, call (Disconnect (device (transports w a))) (write' a [0x08, 0, 0, 0, 0] w))"
  by (simp add: inferMTU_def exchangeAtomicImpl_def inferMTU_job_def write'_def call_def)

lemma inferMTU_pending:
  "first_mtu ns = Pending \<Longrightarrow> inferMTU ns a w = (Pending, write' a [0x08, 0, 0, 0, 0] w)"
  by (simp add: inferMTU_def exchangeAtomicImpl_def inferMTU_job_def)

text \<open>Claim C1, as stated, fails: a peer that announces the packet size 158 leaves the
  transport with \<open>mtuSize = 158\<close>, not 155. The code adds 3 to the announced byte and
  takes the 3 off again before it stores the value.\<close>

theorem inferMTU_announced_158_counterexample:
  "mtuSize (transports (snd (inferMTU [mtu_frame 158] 0 (snd (new_transport 0 (boot (\<lambda>d. nano)))))) 0) = 158 \<and>
   mtuSize (transports (snd (inferMTU [mtu_frame 158] 0 (snd (new_transport 0 (boot (\<lambda>d. nano)))))) 0) \<noteq> 158 - 3"
  by (simp add: inferMTU_resolved [OF first_mtu_frame] update_transport_def write'_def call_def)

text \<open>Claim C1, amended: when the negotiation reads the announced size \<open>n\<close> (the byte at
  offset 5 of the first notification whose first byte is 8), \<^verbatim>\<open>inferMTU\<close> returns and
  stores \<open>n\<close> itself when \<open>n > 20\<close>, and returns the unchanged \<open>mtuSize\<close> when
  \<open>n \<le> 20\<close>; nothing is taken off the announced size.\<close>

theorem inferMTU_budget:
  "first_mtu ns = Resolved n \<Longrightarrow>
     fst (inferMTU ns a w) = Resolved (if n > 20 then n else mtuSize (transports w a)) \<and>
     mtuSize (transports (snd (inferMTU ns a w)) a) = (if n > 20 then n else mtuSize (transports w a))"
  by (simp add: inferMTU_resolved update_transport_def write'_def call_def)

theorem inferMTU_budget_witness:
  "first_mtu [mtu_frame 158] = Resolved 158 \<and>
   fst (inferMTU [mtu_frame 158] 0 (snd (new_transport 0 (boot (\<lambda>d. nano))))) = Resolved 158 \<and>
   mtuSize (transports (snd (inferMTU [mtu_frame 158] 0 (snd (new_transport 0 (boot (\<lambda>d. nano)))))) 0) = 158"
proof -
  have h: "first_mtu [mtu_frame 158] = Resolved 158"
    by (simp add: first_mtu_frame)
  show ?thesis
    using h inferMTU_budget [OF h, of 0 "snd (new_transport 0 (boot (\<lambda>d. nano)))"] by simp
qed

section \<open>Evaluating the concrete inputs\<close>

lemmas eval_defs = establish_def negotiate_def connect_def retrieveService_def new_transport_def
  answering_def slow_pairing_def boot_def nano_def Let_def write'_def workaround_disconnect_def
  inferMTU_resolved [OF first_mtu_frame] world_simps

lemma opened_result:
  "open' (\<lambda>k. answering 200) 0 (Device 0) True (boot (\<lambda>d. nano))
     = (Resolved (TransportObject 0), opened)"
  by (simp add: opened_def eval_defs)

lemma opened_fields:
  "transportsCache opened i = (if i = [0xf, 3, 0xa, 1] then Some 0 else None)"
  "transports opened 0
     = \<lparr>id' = [0xf, 3, 0xa, 1], device = 0, mtuSize = 158, notYetDisconnected = True\<rparr>"
  "devices opened 0 = nano\<lparr>state := Connected, listeners := [OnDisconnect 0]\<rparr>"
  "allocated opened = 1"
  "trace opened
     = [EnterOpen 0 True, Connect 0, DiscoverServices 0, Subscribe 0,
        WriteRefused 0 [8, 0, 0, 0, 0]]"
  by (simp_all add: opened_def eval_defs)

lemma unhex_f3a1: "unhex ''f3a1'' = Some [0xf, 3, 0xa, 1]"
  by (simp add: hex_digit_def)

lemma inherited_not_ident: "key \<in> set inherited \<Longrightarrow> unhex key = None"
  by (auto simp: inherited_def hex_digit_def)

lemma property_ident:
  "unhex key = Some i \<Longrightarrow>
   property obj key = (case obj i of Some a \<Rightarrow> Some (TransportObject a) | None \<Rightarrow> None)"
  using inherited_not_ident [of key] by (auto simp: property_def split: option.splits)

lemma property_inherited:
  "key \<in> set inherited \<Longrightarrow> property obj key = Some (PrototypeMember key)"
  by (simp add: property_def inherited_not_ident)

section \<open>The registry and the disconnect event\<close>

lemma onDisconnect_simps:
  "transportsCache (onDisconnect a w) = (transportsCache w)(id' (transports w a) := None)"
  "transports (onDisconnect a w) = (transports w)(a := (transports w a)\<lparr>notYetDisconnected := False\<rparr>)"
  "allocated (onDisconnect a w) = allocated w"
  "trace (onDisconnect a w) = trace w @ [Unsubscribe a, Emit a]"
  by (simp_all add: onDisconnect_def Let_def world_simps)

lemma fire_fields:
  "id' (transports (fire d l w) b) = id' (transports w b)"
  "device (transports (fire d l w) b) = device (transports w b)"
  "mtuSize (transports (fire d l w) b) = mtuSize (transports w b)"
  "allocated (fire d l w) = allocated w"
  by (cases l; simp add: onDisconnect_simps world_simps)+

lemma fire_cache_None: "transportsCache w i = None \<Longrightarrow> transportsCache (fire d l w) i = None"
  by (cases l) (simp_all add: onDisconnect_simps world_simps)

lemma fold_fire_fields:
  "id' (transports (fold (fire d) ls w) b) = id' (transports w b)"
  "device (transports (fold (fire d) ls w) b) = device (transports w b)"
  "mtuSize (transports (fold (fire d) ls w) b) = mtuSize (transports w b)"
  "allocated (fold (fire d) ls w) = allocated w"
  by (induction ls arbitrary: w; simp add: fire_fields)+

lemma fold_fire_cache_None:
  "transportsCache w i = None \<Longrightarrow> transportsCache (fold (fire d) ls w) i = None"
  by (induction ls arbitrary: w) (simp_all add: fire_cache_None)

lemma fold_fire_evicts:
  "OnDisconnect a \<in> set ls \<Longrightarrow> transportsCache (fold (fire d) ls w) (id' (transports w a)) = None"
proof (induction ls arbitrary: w)
  case Nil
  then show ?case by simp
next
  case (Cons l ls)
  show ?case
  proof (cases "l = OnDisconnect a")
    case True
    then show ?thesis
      by (simp add: fold_fire_cache_None onDisconnect_simps)
  next
    case False
    with Cons.prems have "OnDisconnect a \<in> set ls" by simp
    from Cons.IH [OF this, of "fire d l w"] show ?thesis
      by (simp add: fire_fields)
  qed
qed

lemma disconnect_event_evicts:
  "OnDisconnect a \<in> set (listeners (devices w d)) \<Longrightarrow>
   transportsCache (disconnect_event d w) (id' (transports w a)) = None"
  using fold_fire_evicts [where a = a and ls = "listeners (devices w d)" and d = d
      and w = "update_device d (\<lambda>dv. dv\<lparr>state := Disconnected\<rparr>) w"]
  by (simp add: disconnect_event_def Let_def world_simps)

text \<open>With the identifier of a device, \<^verbatim>\<open>open\<close> does what claim C2 says: it returns
  the cached transport and leaves the world as it is (no call reaches the link stack, no
  device changes); without a cached transport it rejects with DisconnectedDevice; and once
  the disconnect event has called the \<^verbatim>\<open>onDisconnect\<close> of a transport, \<^verbatim>\<open>open\<close> with
  that transport's identifier rejects in this way. A string that is neither an identifier
  nor the name of an inherited member is rejected too.\<close>

lemma open_by_ident:
  assumes "unhex key = Some i"
  shows "transportsCache w i = Some a \<Longrightarrow>
           open' env k (Id key) needsReconnect w = (Resolved (TransportObject a), w)"
    and "transportsCache w i = None \<Longrightarrow>
           open' env k (Id key) needsReconnect w = (Rejected DisconnectedDevice, w)"
    and "OnDisconnect a \<in> set (listeners (devices w d)) \<Longrightarrow> id' (transports w a) = i \<Longrightarrow>
           open' env k (Id key) needsReconnect (disconnect_event d w)
             = (Rejected DisconnectedDevice, disconnect_event d w)"
  using disconnect_event_evicts [of a w d]
  by (auto simp: property_ident [OF assms])

lemma open_by_other_string:
  "unhex key = None \<Longrightarrow> key \<notin> set inherited \<Longrightarrow>
   open' env k (Id key) needsReconnect w = (Rejected DisconnectedDevice, w)"
  by (simp add: property_def)

text \<open>Claim C2 at the id \<^verbatim>\<open>"constructor"\<close>: no transport is cached under that name,
  in the module as loaded or in any other state, and yet \<^verbatim>\<open>open\<close> does not reject with
  DisconnectedDevice: \<^verbatim>\<open>transportsCache["constructor"]\<close> finds the member that every
  plain object inherits, which is truthy, and \<^verbatim>\<open>open\<close> returns it as if it were the
  cached transport.\<close>

theorem open_constructor:
  "transportsCache (boot devs) i = None \<and>
   open' env k (Id ''constructor'') needsReconnect (boot devs)
     = (Resolved (PrototypeMember ''constructor''), boot devs) \<and>
   open' env k (Id ''constructor'') needsReconnect w
     = (Resolved (PrototypeMember ''constructor''), w)"
  by (simp add: property_inherited inherited_def boot_def)

text \<open>With a string that names no inherited member and finds no cached transport, the
  static \<^verbatim>\<open>disconnect\<close> does what claim C10 says: it resolves and leaves the cache, the
  transports, the devices and the trace as they are.\<close>

lemma disconnect_unknown_id:
  "key \<notin> set inherited \<Longrightarrow> Option.bind (unhex key) (transportsCache w) = None \<Longrightarrow>
   disconnect key w = (Resolved (), w)"
  by (simp add: disconnect_def property_def)

text \<open>Claim C10 at the id \<^verbatim>\<open>"constructor"\<close>, which has no cached transport in any
  state: \<^verbatim>\<open>transportsCache["constructor"]\<close> is the inherited member, the test
  \<^verbatim>\<open>if (transport)\<close> lets it pass, \<^verbatim>\<open>transport.device\<close> is undefined, and the static
  \<^verbatim>\<open>disconnect\<close> rejects with a TypeError where the claim has it complete without an
  error.\<close>

theorem disconnect_constructor:
  "transportsCache (boot devs) i = None \<and>
   disconnect ''constructor'' (boot devs) = (Rejected TypeError, boot devs) \<and>
   disconnect ''constructor'' w = (Rejected TypeError, w)"
  by (simp add: disconnect_def property_inherited inherited_def boot_def)






























section \<open>The packet budget\<close>

lemma budgets_kept_refl: "budgets_kept w w"
  by (simp add: budgets_kept_def)

lemma budgets_kept_trans: "budgets_kept w w1 \<Longrightarrow> budgets_kept w1 w2 \<Longrightarrow> budgets_kept w w2"
  unfolding budgets_kept_def by (metis order_trans less_le_trans)

lemma budgets_kept_same:
  "allocated w' = allocated w \<Longrightarrow> (\<And>b. mtuSize (transports w' b) = mtuSize (transports w b)) \<Longrightarrow>
   budgets_kept w w'"
  by (simp add: budgets_kept_def)

lemma budgets_kept_call: "budgets_kept w (call x w)"
  by (simp add: budgets_kept_same world_simps)

lemma budgets_kept_update_device: "budgets_kept w (update_device d f w)"
  by (simp add: budgets_kept_same world_simps)

lemma budgets_kept_disconnect_event: "budgets_kept w (disconnect_event d w)"
  by (simp add: budgets_kept_same disconnect_event_def Let_def fold_fire_fields world_simps)

lemma fold_write_simps:
  "transportsCache (fold (write' a) bs w) = transportsCache w"
  "transports (fold (write' a) bs w) = transports w"
  "allocated (fold (write' a) bs w) = allocated w"
  "devices (fold (write' a) bs w) = devices w"
  "trace (fold (write' a) bs w) = trace w @ map (WriteRefused (device (transports w a))) bs"
  by (induction bs arbitrary: w; simp add: write'_def world_simps)+

lemma budgets_kept_exchange: "budgets_kept w (snd (exchange e a w))"
proof -
  let ?w1 = "fold (write' a) (frames e) w"
  let ?w2 = "if link_drops e then disconnect_event (device (transports ?w1 a)) ?w1 else ?w1"
  have 1: "budgets_kept w ?w1" by (simp add: budgets_kept_same fold_write_simps)
  have 2: "budgets_kept ?w1 ?w2" by (simp add: budgets_kept_disconnect_event budgets_kept_refl)
  have 3: "budgets_kept ?w2 (snd (exchange e a w))"
    by (cases "merged e")
       (simp_all add: exchange_def exchangeAtomicImpl_def exchange_job_def Let_def
          budgets_kept_refl budgets_kept_call)
  from 1 2 3 show ?thesis by (blast intro: budgets_kept_trans)
qed

lemma budgets_kept_disconnect: "budgets_kept w (snd (disconnect i w))"
  by (simp add: disconnect_def budgets_kept_refl budgets_kept_call
      split: option.splits jsvalue.splits)

lemma budgets_kept_connect: "budgets_kept w (snd (connect e d w))"
  by (cases "connect_error e")
     (simp_all add: connect_def Let_def budgets_kept_refl budgets_kept_same world_simps)

lemma budgets_kept_retrieveService: "budgets_kept w (snd (retrieveService e d w))"
proof -
  have "budgets_kept w (call (DiscoverServices d) w)" by (rule budgets_kept_call)
  moreover have "budgets_kept (call (DiscoverServices d) w)
      (if drops_while_discovering e then disconnect_event d (call (DiscoverServices d) w)
       else call (DiscoverServices d) w)"
    by (simp add: budgets_kept_disconnect_event budgets_kept_refl)
  ultimately show ?thesis
    by (cases "discover_error e")
       (auto simp: retrieveService_def Let_def intro: budgets_kept_trans)
qed

lemma budgets_kept_new_transport:
  "new_transport d w = (a, w') \<Longrightarrow> budgets_kept w w' \<and> a = allocated w \<and> allocated w' = Suc a"
  by (auto simp: new_transport_def Let_def budgets_kept_def)

lemma budgets_kept_establish:
  "establish e d w = (r, w') \<Longrightarrow>
   budgets_kept w w' \<and> (\<forall>a. r = Resolved a \<longrightarrow> allocated w \<le> a \<and> a < allocated w')"
proof -
  assume est: "establish e d w = (r, w')"
  obtain r1 w1 where c: "connect e d w = (r1, w1)" by (cases "connect e d w")
  have k1: "budgets_kept w w1" using budgets_kept_connect [of w e d] c by simp
  obtain r2 w2 where s: "retrieveService e d w1 = (r2, w2)" by (cases "retrieveService e d w1")
  have k2: "budgets_kept w w2"
    using budgets_kept_retrieveService [of w1 e d] s k1 by (auto intro: budgets_kept_trans)
  obtain a w3 where n: "new_transport d (call (Subscribe d) w2) = (a, w3)"
    by (cases "new_transport d (call (Subscribe d) w2)")
  from budgets_kept_new_transport [OF n]
  have k3': "budgets_kept (call (Subscribe d) w2) w3" and a: "a = allocated w2" "allocated w3 = Suc a"
    by (simp_all add: world_simps)
  have k3: "budgets_kept w w3"
    using k2 budgets_kept_call [of w2 "Subscribe d"] k3' by (blast intro: budgets_kept_trans)
  let ?w4 = "update_device d (\<lambda>dv. dv\<lparr>listeners := listeners dv @ [OnDisconnect a]\<rparr>)
                  (w3\<lparr>transportsCache := (transportsCache w3)(id' (transports w3 a) \<mapsto> a)\<rparr>)"
  have k4: "budgets_kept w ?w4"
    using k3 by (simp add: budgets_kept_def world_simps)
  have le: "allocated w \<le> a" using k2 a by (simp add: budgets_kept_def)
  have k2': "budgets_kept w (call (Subscribe d) w2)"
    using k2 budgets_kept_call [of w2 "Subscribe d"] by (blast intro: budgets_kept_trans)
  show ?thesis
    using est k1 k2 k2' k3 k4 le a
    by (cases r1; cases r2)
       (auto simp: establish_def c s n world_simps split: if_splits)
qed

lemma budgets_kept_inferMTU:
  "budgets_kept w0 w \<Longrightarrow> allocated w0 \<le> a \<Longrightarrow> budgets_kept w0 (snd (inferMTU ns a w))"
  by (cases "first_mtu ns")
     (auto simp: inferMTU_resolved inferMTU_rejected inferMTU_pending budgets_kept_def
        write'_def world_simps)

lemma budgets_kept_negotiate:
  "budgets_kept w0 w \<Longrightarrow> allocated w0 \<le> a \<Longrightarrow> budgets_kept w0 (snd (negotiate e d a nr w))"
proof -
  assume k: "budgets_kept w0 w" and a: "allocated w0 \<le> a"
  obtain r w1 where i: "inferMTU (notifications e) a w = (r, w1)"
    by (cases "inferMTU (notifications e) a w")
  have k1: "budgets_kept w0 w1" using budgets_kept_inferMTU [OF k a, of "notifications e"] i by simp
  have k2: "budgets_kept w0 (call (Sleep 1000) (workaround_disconnect d w1))"
    using k1 by (simp add: budgets_kept_def workaround_disconnect_def world_simps)
  show ?thesis
    by (cases r) (simp_all add: negotiate_def i Let_def k1 k2)
qed

lemma budgets_kept_open: "budgets_kept w (snd (open' env k x needsReconnect w))"
proof (induction env k x needsReconnect w rule: open'.induct)
  case (1 env k i needsReconnect w)
  then show ?case by (simp add: budgets_kept_refl split: option.splits)
next
  case (2 env k d needsReconnect w)
  obtain r1 w1 where e: "establish (env k) d (call (EnterOpen d needsReconnect) w) = (r1, w1)"
    by (cases "establish (env k) d (call (EnterOpen d needsReconnect) w)")
  from budgets_kept_establish [OF e]
  have k1: "budgets_kept w w1" and fresh: "\<And>a. r1 = Resolved a \<Longrightarrow> allocated w \<le> a"
    using budgets_kept_call [of w "EnterOpen d needsReconnect"]
    by (auto intro: budgets_kept_trans simp: world_simps)
  show ?case
  proof (cases r1)
    case (Resolved a)
    obtain r2 again w2 where n: "negotiate (env k) d a needsReconnect w1 = ((r2, again), w2)"
      by (cases "negotiate (env k) d a needsReconnect w1") auto
    have k2: "budgets_kept w w2"
      using budgets_kept_negotiate [OF k1 fresh [OF Resolved], of "env k" d needsReconnect] n by simp
    show ?thesis
    proof (cases r2)
      case r2: (Resolved m)
      show ?thesis
      proof (cases again)
        case True
        from "2.IH" [OF e [symmetric] Resolved n [symmetric] refl r2 True]
        have "budgets_kept w2 (snd (open' env (Suc k) (Device d) False w2))" .
        with k2 show ?thesis using e n Resolved r2 True
          by (auto intro: budgets_kept_trans)
      next
        case False
        then show ?thesis using e n Resolved r2 k2 by simp
      qed
    qed (use e n Resolved k2 in simp_all)
  qed (use e k1 in simp_all)
qed

lemma budgets_kept_apply_op: "budgets_kept w (apply_op x w)"
  by (cases x)
     (simp_all add: budgets_kept_open budgets_kept_exchange budgets_kept_disconnect
        budgets_kept_disconnect_event budgets_kept_refl)

lemma budgets_kept_run: "budgets_kept w (run ops w)"
  unfolding run_def
proof (induction ops arbitrary: w)
  case Nil
  show ?case by (simp add: budgets_kept_refl)
next
  case (Cons x ops)
  from budgets_kept_apply_op [of w x] Cons [of "apply_op x w"]
  show ?case by (auto intro: budgets_kept_trans)
qed

text \<open>Claim C6: a transport is constructed with \<open>mtuSize = 20\<close>; after any run of the
  module every transport has \<open>mtuSize \<ge> 20\<close>, whatever the peers announced; and the
  \<open>mtuSize\<close> of a transport that exists is changed by no later operation. Within this
  module \<^verbatim>\<open>inferMTU\<close>, the only writer of \<open>mtuSize\<close>, is called by \<^verbatim>\<open>open\<close> alone, once,
  on the transport that this pass of \<^verbatim>\<open>open\<close> has just constructed; so the budget is set
  at most once, by the negotiation.\<close>

theorem packet_budget:
  "mtuSize (transports (snd (new_transport d w)) (fst (new_transport d w))) = 20 \<and>
   (\<forall>a<allocated (run ops (boot devs)). 20 \<le> mtuSize (transports (run ops (boot devs)) a)) \<and>
   (\<forall>a<allocated w. mtuSize (transports (run later w) a) = mtuSize (transports w a))"
proof -
  have "\<forall>b. 20 \<le> mtuSize (transports (boot devs) b)" by (simp add: boot_def)
  with budgets_kept_run [of "boot devs" ops]
  have "\<forall>b. 20 \<le> mtuSize (transports (run ops (boot devs)) b)"
    by (simp add: budgets_kept_def)
  moreover from budgets_kept_run [of w later]
  have "\<forall>a<allocated w. mtuSize (transports (run later w) a) = mtuSize (transports w a)"
    by (simp add: budgets_kept_def)
  ultimately show ?thesis by (simp add: new_transport_def Let_def)
qed


theorem packet_budget_witness:
  "mtuSize (transports (snd (new_transport 0 opened)) (fst (new_transport 0 opened))) = 20 \<and>
   allocated (run [Open (\<lambda>k. answering 200) (Device 0)] (boot (\<lambda>d. nano))) = 1 \<and>
   mtuSize (transports (run [Open (\<lambda>k. answering 200) (Device 0)] (boot (\<lambda>d. nano))) 0) = 158 \<and>
   mtuSize (transports (run [Exchange failing 0, LinkDisconnected 0, Open slow_pairing (Device 0)] opened) 0) = 158"
proof -
  have r: "run [Open (\<lambda>k. answering 200) (Device 0)] (boot (\<lambda>d. nano)) = opened"
    by (simp add: run_def opened_def)
  show ?thesis
    using packet_budget [where d = 0 and w = opened and devs = "\<lambda>d. nano"
        and ops = "[Open (\<lambda>k. answering 200) (Device 0)]"
        and later = "[Exchange failing 0, LinkDisconnected 0, Open slow_pairing (Device 0)]"]
    by (simp add: r opened_fields)
qed

section \<open>Errors and the force-disconnect\<close>

lemma onDisconnect_flag:
  "\<not> notYetDisconnected (transports w a) \<Longrightarrow> \<not> notYetDisconnected (transports (onDisconnect b w) a)"
  by (simp add: onDisconnect_simps)

lemma fire_flag:
  "\<not> notYetDisconnected (transports w a) \<Longrightarrow> \<not> notYetDisconnected (transports (fire d l w) a)"
  by (cases l) (simp_all add: onDisconnect_flag world_simps)

lemma fold_fire_flag:
  "\<not> notYetDisconnected (transports w a) \<Longrightarrow>
   \<not> notYetDisconnected (transports (fold (fire d) ls w) a)"
  by (induction ls arbitrary: w) (simp_all add: fire_flag)

lemma disconnect_event_flag:
  "\<not> notYetDisconnected (transports w a) \<Longrightarrow>
   \<not> notYetDisconnected (transports (disconnect_event d w) a)"
  by (simp add: disconnect_event_def Let_def fold_fire_flag world_simps)

lemma fire_force_disconnect:
  "filter force_disconnect (trace (fire d l w)) = filter force_disconnect (trace w)"
  by (cases l) (simp_all add: onDisconnect_simps world_simps)

lemma fold_fire_force_disconnect:
  "filter force_disconnect (trace (fold (fire d) ls w)) = filter force_disconnect (trace w)"
  by (induction ls arbitrary: w) (simp_all add: fire_force_disconnect)

lemma disconnect_event_force_disconnect:
  "filter force_disconnect (trace (disconnect_event d w)) = filter force_disconnect (trace w)"
  by (simp add: disconnect_event_def Let_def fold_fire_force_disconnect world_simps)

lemma filter_force_disconnect_writes: "filter force_disconnect (map (WriteRefused d) bs) = []"
  by (induction bs) simp_all

text \<open>The negotiation does what claim C4 says of it: its error reaches the caller, and
  \<^verbatim>\<open>device.disconnect\<close> is called once.\<close>

lemma inferMTU_error_disconnects:
  "first_mtu ns = Rejected err \<Longrightarrow>
   fst (inferMTU ns a w) = Rejected err \<and>
   trace (snd (inferMTU ns a w)) =
     trace w @ [WriteRefused (device (transports w a)) [0x08, 0, 0, 0, 0],
                Disconnect (device (transports w a))]"
  by (simp add: inferMTU_rejected write'_def world_simps)

text \<open>An exchange does not: it leaves the world as the frames and the link have made it,
  whatever its outcome, and when it fails with the flag \<open>notYetDisconnected\<close> set, the
  caller gets the TypeError of the \<^verbatim>\<open>catch\<close> block in place of the error.\<close>

lemma exchange_world:
  "snd (exchange e a w) =
     (if link_drops e
      then disconnect_event (device (transports w a)) (fold (write' a) (frames e) w)
      else fold (write' a) (frames e) w)"
  by (cases "merged e")
     (simp_all add: exchange_def exchangeAtomicImpl_def exchange_job_def Let_def fold_write_simps)

lemma exchange_rejected_live:
  "merged e = Rejected err \<Longrightarrow> \<not> link_drops e \<Longrightarrow> notYetDisconnected (transports w a) \<Longrightarrow>
   fst (exchange e a w) = Rejected TypeError"
  by (simp add: exchange_def exchangeAtomicImpl_def exchange_job_def Let_def fold_write_simps)

lemma exchange_rejected_after_disconnect:
  "merged e = Rejected err \<Longrightarrow> \<not> notYetDisconnected (transports w a) \<Longrightarrow>
   fst (exchange e a w) = Rejected err"
  by (simp add: exchange_def exchangeAtomicImpl_def exchange_job_def Let_def fold_write_simps
      disconnect_event_flag)

text \<open>Claim C4 at an exchange that fails on a transport which has seen no disconnect
  event: the merged streams reject with an error of the link, the \<^verbatim>\<open>catch\<close> block
  evaluates \<^verbatim>\<open>this.device.gatt.disconnect()\<close> on a noble peripheral and throws a
  TypeError. The caller gets the TypeError, not the error, and the link is not asked to
  disconnect. In no state and with no outcome does an exchange add a disconnect call to
  the trace.\<close>

theorem exchange_error_replaced:
  "merged failing = Rejected (LinkFault 0) \<and>
   notYetDisconnected (transports (snd (new_transport 0 (boot (\<lambda>d. nano)))) 0) \<and>
   exchange failing 0 (snd (new_transport 0 (boot (\<lambda>d. nano))))
     = (Rejected TypeError, snd (new_transport 0 (boot (\<lambda>d. nano)))) \<and>
   filter force_disconnect (trace (snd (exchange e a w))) = filter force_disconnect (trace w)"
proof -
  let ?w = "snd (new_transport 0 (boot (\<lambda>d. nano)))"
  have m: "merged failing = Rejected (LinkFault 0)" and d: "\<not> link_drops failing"
    and f: "frames failing = []"
    by (simp_all add: failing_def)
  have live: "notYetDisconnected (transports ?w 0)"
    by (simp add: new_transport_def Let_def boot_def)
  have "fst (exchange failing 0 ?w) = Rejected TypeError"
    by (rule exchange_rejected_live [OF m d live])
  moreover have "snd (exchange failing 0 ?w) = ?w"
    by (simp add: exchange_world d f)
  ultimately have "exchange failing 0 ?w = (Rejected TypeError, ?w)"
    by (simp add: prod_eq_iff)
  moreover have "filter force_disconnect (trace (snd (exchange e a w)))
      = filter force_disconnect (trace w)"
    by (simp add: exchange_world fold_write_simps filter_force_disconnect_writes
        disconnect_event_force_disconnect)
  ultimately show ?thesis using m live by simp
qed

section \<open>The reconnect workaround\<close>

text \<open>What holds of the workaround on every input: the body of \<^verbatim>\<open>open\<close> is entered at
  most twice (once when \<^verbatim>\<open>needsReconnect\<close> is false), it is entered once when the
  negotiation is timed under 500 ms, and an \<^verbatim>\<open>open\<close> that resolves has made no call
  that disconnects a device.\<close>

lemma fire_trace_filter:
  assumes "\<And>a. \<not> P (Unsubscribe a)" and "\<And>a. \<not> P (Emit a)"
  shows "filter P (trace (fire d l w)) = filter P (trace w)"
  using assms by (cases l) (simp_all add: onDisconnect_simps world_simps)

lemma disconnect_event_trace_filter:
  assumes "\<And>a. \<not> P (Unsubscribe a)" and "\<And>a. \<not> P (Emit a)"
  shows "filter P (trace (disconnect_event d w)) = filter P (trace w)"
proof -
  have "filter P (trace (fold (fire d) ls v)) = filter P (trace v)" for ls v
    by (induction ls arbitrary: v) (simp_all add: fire_trace_filter [of P, OF assms])
  then show ?thesis by (simp add: disconnect_event_def Let_def world_simps)
qed

lemma establish_trace_filter:
  assumes "\<And>a. \<not> P (Unsubscribe a)" and "\<And>a. \<not> P (Emit a)"
    and "\<not> P (Connect d)" and "\<not> P (DiscoverServices d)" and "\<not> P (Subscribe d)"
  shows "filter P (trace (snd (establish e d w))) = filter P (trace w)"
proof -
  obtain r1 w1 where c: "connect e d w = (r1, w1)" by (cases "connect e d w")
  have t1: "filter P (trace w1) = filter P (trace w)"
    using c assms(3)
    by (cases "connect_error e") (auto simp: connect_def Let_def world_simps split: if_splits)
  obtain r2 w2 where s: "retrieveService e d w1 = (r2, w2)" by (cases "retrieveService e d w1")
  have t2: "filter P (trace w2) = filter P (trace w)"
    using s t1 assms(4) disconnect_event_trace_filter [of P, OF assms(1,2)]
    by (cases "discover_error e") (auto simp: retrieveService_def Let_def world_simps)
  obtain a w3 where n: "new_transport d (call (Subscribe d) w2) = (a, w3)"
    by (cases "new_transport d (call (Subscribe d) w2)")
  have t3: "filter P (trace w3) = filter P (trace w)"
    using n t2 assms(5) by (auto simp: new_transport_def Let_def world_simps)
  have t2': "filter P (trace (call (Subscribe d) w2)) = filter P (trace w)"
    using t2 assms(5) by (simp add: world_simps)
  show ?thesis
    using assms(5)
    by (cases r1; cases r2) (simp_all add: establish_def c s n t1 t2 t2' t3 world_simps)
qed

lemma negotiate_entered:
  "filter entered (trace (snd (negotiate e d a nr w))) = filter entered (trace w)"
proof -
  have "filter entered (trace (snd (inferMTU ns a w))) = filter entered (trace w)" for ns
    by (cases "first_mtu ns")
       (simp_all add: inferMTU_resolved inferMTU_rejected inferMTU_pending write'_def world_simps)
  from this [of "notifications e"] show ?thesis
    by (cases "inferMTU (notifications e) a w"; cases "fst (inferMTU (notifications e) a w)")
       (simp_all add: negotiate_def Let_def workaround_disconnect_def world_simps)
qed

lemma negotiate_resolved_no_disconnect:
  assumes "negotiate e d a nr w = ((Resolved m, again), w')"
  shows "filter force_disconnect (trace w') = filter force_disconnect (trace w)"
proof (cases "first_mtu (notifications e)")
  case (Resolved n)
  with assms show ?thesis
    by (auto simp: negotiate_def Let_def inferMTU_resolved workaround_disconnect_def write'_def
        world_simps split: if_splits)
next
  case (Rejected err)
  with assms show ?thesis by (simp add: negotiate_def Let_def inferMTU_rejected)
next
  case Pending
  with assms show ?thesis by (simp add: negotiate_def inferMTU_pending)
qed

lemma negotiate_quick:
  "afterMTUTime e - beforeMTUTime e < 500 \<Longrightarrow>
   negotiate e d a nr w = ((Resolved m, again), w') \<Longrightarrow> \<not> again"
  by (cases "inferMTU (notifications e) a w"; cases "fst (inferMTU (notifications e) a w)")
     (auto simp: negotiate_def Let_def)

lemma open_passes_at_most_twice:
  "length (filter entered (trace (snd (open' env k x needsReconnect w))))
     \<le> length (filter entered (trace w)) + (if needsReconnect then 2 else 1)"
proof (induction env k x needsReconnect w rule: open'.induct)
  case (1 env k i needsReconnect w)
  then show ?case by (simp split: option.splits)
next
  case (2 env k d needsReconnect w)
  let ?w0 = "call (EnterOpen d needsReconnect) w"
  obtain r1 w1 where e: "establish (env k) d ?w0 = (r1, w1)"
    by (cases "establish (env k) d ?w0")
  have t1: "filter entered (trace w1) = filter entered (trace w) @ [EnterOpen d needsReconnect]"
    using establish_trace_filter [of entered d "env k" ?w0] e by (simp add: world_simps)
  show ?case
  proof (cases r1)
    case (Resolved a)
    obtain r2 again w2 where n: "negotiate (env k) d a needsReconnect w1 = ((r2, again), w2)"
      by (cases "negotiate (env k) d a needsReconnect w1") auto
    have t2: "filter entered (trace w2) = filter entered (trace w) @ [EnterOpen d needsReconnect]"
      using negotiate_entered [of "env k" d a needsReconnect w1] n t1 by simp
    show ?thesis
    proof (cases r2)
      case r2: (Resolved m)
      show ?thesis
      proof (cases again)
        case True
        have nr: needsReconnect
          using n r2 True
          by (auto simp: negotiate_def Let_def split: prod.splits outcome.splits if_splits)
        from "2.IH" [OF e [symmetric] Resolved n [symmetric] refl r2 True]
        show ?thesis using e n Resolved r2 True t2 nr by simp
      next
        case False
        then show ?thesis using e n Resolved r2 t2 by simp
      qed
    qed (use e n Resolved t2 in simp_all)
  qed (use e t1 in simp_all)
qed

lemma open_quick_single_pass:
  assumes "afterMTUTime (env k) - beforeMTUTime (env k) < 500"
  shows "filter entered (trace (snd (open' env k (Device d) needsReconnect w)))
     = filter entered (trace w) @ [EnterOpen d needsReconnect]"
proof -
  let ?w0 = "call (EnterOpen d needsReconnect) w"
  obtain r1 w1 where e: "establish (env k) d ?w0 = (r1, w1)"
    by (cases "establish (env k) d ?w0")
  have t1: "filter entered (trace w1) = filter entered (trace w) @ [EnterOpen d needsReconnect]"
    using establish_trace_filter [of entered d "env k" ?w0] e by (simp add: world_simps)
  show ?thesis
  proof (cases r1)
    case (Resolved a)
    obtain r2 again w2 where n: "negotiate (env k) d a needsReconnect w1 = ((r2, again), w2)"
      by (cases "negotiate (env k) d a needsReconnect w1") auto
    have t2: "filter entered (trace w2) = filter entered (trace w) @ [EnterOpen d needsReconnect]"
      using negotiate_entered [of "env k" d a needsReconnect w1] n t1 by simp
    show ?thesis
    proof (cases r2)
      case r2: (Resolved m)
      from negotiate_quick [OF assms n [unfolded r2]] show ?thesis
        using e n Resolved r2 t2 by simp
    qed (use e n Resolved t2 in simp_all)
  qed (use e t1 in simp_all)
qed

lemma open_success_no_disconnect:
  "open' env k x needsReconnect w = (Resolved v, w') \<Longrightarrow>
   filter force_disconnect (trace w') = filter force_disconnect (trace w)"
proof (induction env k x needsReconnect w rule: open'.induct)
  case (1 env k i needsReconnect w)
  then show ?case by (auto split: option.splits)
next
  case (2 env k d needsReconnect w)
  let ?w0 = "call (EnterOpen d needsReconnect) w"
  obtain r1 w1 where e: "establish (env k) d ?w0 = (r1, w1)"
    by (cases "establish (env k) d ?w0")
  have t1: "filter force_disconnect (trace w1) = filter force_disconnect (trace w)"
    using establish_trace_filter [of force_disconnect d "env k" ?w0] e by (simp add: world_simps)
  show ?case
  proof (cases r1)
    case (Resolved b)
    obtain r2 again w2 where n: "negotiate (env k) d b needsReconnect w1 = ((r2, again), w2)"
      by (cases "negotiate (env k) d b needsReconnect w1") auto
    show ?thesis
    proof (cases r2)
      case r2: (Resolved m)
      have t2: "filter force_disconnect (trace w2) = filter force_disconnect (trace w)"
        using negotiate_resolved_no_disconnect [OF n [unfolded r2]] t1 by simp
      show ?thesis
      proof (cases again)
        case True
        have "open' env (Suc k) (Device d) False w2 = (Resolved v, w')"
          using "2.prems" e n Resolved r2 True by simp
        from "2.IH" [OF e [symmetric] Resolved n [symmetric] refl r2 True this] t2
        show ?thesis by simp
      next
        case False
        then show ?thesis using "2.prems" e n Resolved r2 t2 by simp
      qed
    qed (use "2.prems" e n Resolved in simp_all)
  qed (use "2.prems" e in simp_all)
qed


section \<open>Discovery\<close>

lemma detectingDevices_inv:
  assumes "\<forall>p\<in>set (emitted l). named p \<and> discoveredDevices l (uuid p) \<noteq> None"
    and "distinct (map uuid (emitted l))"
  shows "(\<forall>p\<in>set (emitted (detectingDevices q l)).
            named p \<and> discoveredDevices (detectingDevices q l) (uuid p) \<noteq> None) \<and>
         distinct (map uuid (emitted (detectingDevices q l)))"
  using assms
  by (auto simp: detectingDevices_def Let_def named_def truthy_def split: option.splits)

lemma scan_inv:
  assumes "\<forall>p\<in>set (emitted l). named p \<and> discoveredDevices l (uuid p) \<noteq> None"
    and "distinct (map uuid (emitted l))"
  shows "(\<forall>p\<in>set (emitted (scan ev l)).
            named p \<and> discoveredDevices (scan ev l) (uuid p) \<noteq> None) \<and>
         distinct (map uuid (emitted (scan ev l)))"
proof (cases ev)
  case (Discover q)
  with detectingDevices_inv [OF assms, of q] assms show ?thesis by simp
next
  case Unsubscribed
  with assms show ?thesis by simp
qed

lemma fold_scan_inv:
  "\<forall>p\<in>set (emitted l). named p \<and> discoveredDevices l (uuid p) \<noteq> None \<Longrightarrow>
   distinct (map uuid (emitted l)) \<Longrightarrow>
   (\<forall>p\<in>set (emitted (fold scan evs l)).
      named p \<and> discoveredDevices (fold scan evs l) (uuid p) \<noteq> None) \<and>
   distinct (map uuid (emitted (fold scan evs l)))"
proof (induction evs arbitrary: l)
  case Nil
  then show ?case by simp
next
  case (Cons ev evs)
  from scan_inv [OF Cons.prems, of ev] Cons.IH [of "scan ev l"]
  show ?case by simp
qed

text \<open>Claim C9: every peripheral handed to the observer of \<^verbatim>\<open>listen\<close> has an
  advertised name that is defined, not empty and not \<^verbatim>\<open>"unknown"\<close>, and no two of them
  have the same \<^verbatim>\<open>uuid\<close> (noble's identifier of the peripheral), however often the link
  stack reports a peripheral.\<close>

theorem listen_named_once:
  "listen poweredOn evs = Inr ps \<Longrightarrow>
   (\<forall>p\<in>set ps. localName p \<noteq> None \<and> localName p \<noteq> Some [] \<and> localName p \<noteq> Some ''unknown'') \<and>
   distinct (map uuid ps)"
  using fold_scan_inv [of "\<lparr>discoveredDevices = Map.empty, unsubscribed = False, registered = True, emitted = []\<rparr>" evs]
  by (auto simp: listen_def named_def split: if_splits)


theorem listen_named_once_witness:
  "listen True sightings = Inr [nano] \<and>
   localName nano \<noteq> None \<and> localName nano \<noteq> Some [] \<and> localName nano \<noteq> Some ''unknown'' \<and>
   distinct (map uuid [nano])"
proof -
  have h: "listen True sightings = Inr [nano]"
    by (simp add: listen_def sightings_def detectingDevices_def truthy_def Let_def nano_def)
  show ?thesis using h listen_named_once [OF h] by simp
qed

section \<open>Properties of the exchange lock\<close>


lemma lock_inv_constructed: "lock_inv constructed"
  by (simp add: lock_inv_def constructed_def service_order_def)

lemma lock_invI:
  assumes "service_order s = [0..<calls s]"
    and "exchangeBusyPromise s = None \<Longrightarrow> waiting s = []"
    and "fst ` set (write_stream s) \<subseteq> set (settled s) \<union> set_option (exchangeBusyPromise s)"
    and "sorted (map fst (write_stream s))"
    and "\<And>c. c \<in> set (returned s) \<Longrightarrow>
           c < length (closes s) \<and> (\<forall>j. closes s ! c = Some j \<longrightarrow> j \<in> set (settled s))"
  shows "lock_inv s"
  using assms unfolding lock_inv_def by blast

lemma lock_invD:
  assumes "lock_inv s"
  shows "service_order s = [0..<calls s]"
    and "exchangeBusyPromise s = None \<Longrightarrow> waiting s = []"
    and "fst ` set (write_stream s) \<subseteq> set (settled s) \<union> set_option (exchangeBusyPromise s)"
    and "sorted (map fst (write_stream s))"
    and "c \<in> set (returned s) \<Longrightarrow>
           c < length (closes s) \<and> (\<forall>j. closes s ! c = Some j \<longrightarrow> j \<in> set (settled s))"
  using assms unfolding lock_inv_def by blast+

lemma enter_fields:
  "calls (enter fs s) = Suc (calls s)"
  "write_stream (enter fs s) = write_stream s"
  "settled (enter fs s) = settled s"
  "closes (enter fs s) = closes s"
  "returned (enter fs s) = returned s"
  "link (enter fs s) = link s"
  "exchangeBusyPromise (enter fs s) \<noteq> None"
  "set_option (exchangeBusyPromise s) \<subseteq> set_option (exchangeBusyPromise (enter fs s))"
  unfolding enter_def Let_def by (simp_all split: option.splits)

lemma enter_service_order:
  "(exchangeBusyPromise s = None \<Longrightarrow> waiting s = []) \<Longrightarrow>
   service_order (enter fs s) = service_order s @ [calls s]"
  by (cases "exchangeBusyPromise s") (simp_all add: enter_def Let_def service_order_def)

lemma lock_inv_enter:
  assumes "lock_inv s"
  shows "lock_inv (enter fs s)"
proof (rule lock_invI)
  show "service_order (enter fs s) = [0..<calls (enter fs s)]"
    by (simp add: enter_service_order [OF lock_invD(2) [OF assms]] lock_invD(1) [OF assms]
        enter_fields)
  show "waiting (enter fs s) = []" if "exchangeBusyPromise (enter fs s) = None"
    using that enter_fields(7) [of fs s] by simp
  have "fst ` set (write_stream s) \<subseteq> set (settled s) \<union> set_option (exchangeBusyPromise s)"
    by (rule lock_invD(3) [OF assms])
  also have "\<dots> \<subseteq> set (settled s) \<union> set_option (exchangeBusyPromise (enter fs s))"
    by (rule Un_mono [OF subset_refl enter_fields(8)])
  finally show "fst ` set (write_stream (enter fs s))
      \<subseteq> set (settled (enter fs s)) \<union> set_option (exchangeBusyPromise (enter fs s))"
    by (simp only: enter_fields(2,3))
  show "sorted (map fst (write_stream (enter fs s)))"
    using lock_invD(4) [OF assms] by (simp only: enter_fields(2))
  show "c < length (closes (enter fs s)) \<and>
      (\<forall>j. closes (enter fs s) ! c = Some j \<longrightarrow> j \<in> set (settled (enter fs s)))"
    if "c \<in> set (returned (enter fs s))" for c
    using lock_invD(5) [OF assms, of c] that by (simp add: enter_fields(3,4,5))
qed

lemma settled_before_holder:
  assumes "service_order s = [0..<calls s]" and "exchangeBusyPromise s = Some j"
    and "k \<in> set (settled s)"
  shows "k < j"
proof -
  have "sorted_wrt (<) (service_order s)"
    unfolding assms(1) by (rule sorted_wrt_upt)
  then have "sorted_wrt (<) (settled s @ [j] @ waiting s)"
    using assms(2) by (simp add: service_order_def)
  with assms(3) show ?thesis by (simp add: sorted_wrt_append)
qed

lemma lock_inv_written:
  assumes "lock_inv s" and "exchangeBusyPromise s = Some j"
  shows "lock_inv (s\<lparr>write_stream := write_stream s @ [(j, f)], to_write := g\<rparr>)"
    (is "lock_inv ?s")
proof (rule lock_invI)
  have so: "service_order ?s = service_order s" by (simp add: service_order_def)
  show "service_order ?s = [0..<calls ?s]"
    using lock_invD(1) [OF assms(1)] by (simp add: so)
  show "waiting ?s = []" if "exchangeBusyPromise ?s = None"
    using that assms(2) by simp
  have sub: "fst ` set (write_stream s) \<subseteq> insert j (set (settled s))"
    using lock_invD(3) [OF assms(1)] by (simp add: assms(2))
  then show "fst ` set (write_stream ?s) \<subseteq> set (settled ?s) \<union> set_option (exchangeBusyPromise ?s)"
    by (simp add: assms(2))
  have le: "k \<le> j" if "k \<in> set (map fst (write_stream s))" for k
  proof (cases "k = j")
    case True
    then show ?thesis by simp
  next
    case False
    from that sub have "k \<in> insert j (set (settled s))" by auto
    with False have "k \<in> set (settled s)" by simp
    from settled_before_holder [OF lock_invD(1) [OF assms(1)] assms(2) this]
    show ?thesis by simp
  qed
  have "sorted (map fst (write_stream s) @ [j])"
    using lock_invD(4) [OF assms(1)] le by (simp add: sorted_append)
  then show "sorted (map fst (write_stream ?s))" by simp
  show "c < length (closes ?s) \<and> (\<forall>j. closes ?s ! c = Some j \<longrightarrow> j \<in> set (settled ?s))"
    if "c \<in> set (returned ?s)" for c
    using lock_invD(5) [OF assms(1), of c] that by simp
qed

lemma release_fields:
  "calls (release j s) = calls s"
  "write_stream (release j s) = write_stream s"
  "settled (release j s) = settled s @ [j]"
  "closes (release j s) = closes s"
  "returned (release j s) = returned s"
  "link (release j s) = link s"
  unfolding release_def by (simp_all split: list.splits)

lemma release_service_order:
  "exchangeBusyPromise s = Some j \<Longrightarrow> service_order (release j s) = service_order s"
  by (cases "waiting s") (simp_all add: release_def service_order_def)

lemma lock_inv_release:
  assumes "lock_inv s" and "exchangeBusyPromise s = Some j"
  shows "lock_inv (release j s)"
proof (rule lock_invI)
  show "service_order (release j s) = [0..<calls (release j s)]"
    using lock_invD(1) [OF assms(1)] by (simp add: release_service_order [OF assms(2)] release_fields)
  show "waiting (release j s) = []" if "exchangeBusyPromise (release j s) = None"
    using that by (cases "waiting s") (simp_all add: release_def)
  have "set_option (exchangeBusyPromise s) = {j}" using assms(2) by simp
  with lock_invD(3) [OF assms(1)]
  show "fst ` set (write_stream (release j s))
      \<subseteq> set (settled (release j s)) \<union> set_option (exchangeBusyPromise (release j s))"
    by (simp only: release_fields) auto
  show "sorted (map fst (write_stream (release j s)))"
    using lock_invD(4) [OF assms(1)] by (simp add: release_fields)
  show "c < length (closes (release j s)) \<and>
      (\<forall>k. closes (release j s) ! c = Some k \<longrightarrow> k \<in> set (settled (release j s)))"
    if "c \<in> set (returned (release j s))" for c
    using lock_invD(5) [OF assms(1), of c] that by (simp add: release_fields)
qed

lemma lock_inv_close_called:
  assumes "lock_inv s"
  shows "lock_inv (s\<lparr>closes := closes s @ [p]\<rparr>)" (is "lock_inv ?s")
proof (rule lock_invI)
  show "service_order ?s = [0..<calls ?s]"
    using lock_invD(1) [OF assms] by (simp add: service_order_def)
  show "waiting ?s = []" if "exchangeBusyPromise ?s = None"
    using that lock_invD(2) [OF assms] by simp
  show "fst ` set (write_stream ?s) \<subseteq> set (settled ?s) \<union> set_option (exchangeBusyPromise ?s)"
    using lock_invD(3) [OF assms] by simp
  show "sorted (map fst (write_stream ?s))"
    using lock_invD(4) [OF assms] by simp
  show "c < length (closes ?s) \<and> (\<forall>j. closes ?s ! c = Some j \<longrightarrow> j \<in> set (settled ?s))"
    if "c \<in> set (returned ?s)" for c
    using lock_invD(5) [OF assms, of c] that by (simp add: nth_append)
qed

lemma lock_inv_close_returned:
  assumes "lock_inv s" and "c < length (closes s)"
    and "case closes s ! c of None \<Rightarrow> True | Some j \<Rightarrow> j \<in> set (settled s)"
  shows "lock_inv (s\<lparr>returned := returned s @ [c]\<rparr>)" (is "lock_inv ?s")
proof (rule lock_invI)
  show "service_order ?s = [0..<calls ?s]"
    using lock_invD(1) [OF assms(1)] by (simp add: service_order_def)
  show "waiting ?s = []" if "exchangeBusyPromise ?s = None"
    using that lock_invD(2) [OF assms(1)] by simp
  show "fst ` set (write_stream ?s) \<subseteq> set (settled ?s) \<union> set_option (exchangeBusyPromise ?s)"
    using lock_invD(3) [OF assms(1)] by simp
  show "sorted (map fst (write_stream ?s))"
    using lock_invD(4) [OF assms(1)] by simp
  show "d < length (closes ?s) \<and> (\<forall>j. closes ?s ! d = Some j \<longrightarrow> j \<in> set (settled ?s))"
    if "d \<in> set (returned ?s)" for d
  proof (cases "d = c")
    case True
    with assms(2,3) show ?thesis by (auto split: option.splits)
  next
    case False
    with that lock_invD(5) [OF assms(1), of d] show ?thesis by simp
  qed
qed

lemma lock_inv_link_dropped:
  assumes "lock_inv s"
  shows "lock_inv (s\<lparr>link := Disconnected\<rparr>)" (is "lock_inv ?s")
proof (rule lock_invI)
  show "service_order ?s = [0..<calls ?s]"
    using lock_invD(1) [OF assms] by (simp add: service_order_def)
  show "waiting ?s = []" if "exchangeBusyPromise ?s = None"
    using that lock_invD(2) [OF assms] by simp
  show "fst ` set (write_stream ?s) \<subseteq> set (settled ?s) \<union> set_option (exchangeBusyPromise ?s)"
    using lock_invD(3) [OF assms] by simp
  show "sorted (map fst (write_stream ?s))"
    using lock_invD(4) [OF assms] by simp
  show "c < length (closes ?s) \<and> (\<forall>j. closes ?s ! c = Some j \<longrightarrow> j \<in> set (settled ?s))"
    if "c \<in> set (returned ?s)" for c
    using lock_invD(5) [OF assms, of c] that by simp
qed

lemma lock_inv_step:
  assumes "lock_inv s" and "step ev s = Some s'"
  shows "lock_inv s'"
proof (cases ev)
  case (ExchangeCalled fs)
  with assms show ?thesis by (auto simp: lock_inv_enter)
next
  case InferMTUCalled
  with assms show ?thesis by (auto simp: lock_inv_enter)
next
  case FrameWritten
  with assms(2) obtain j f fs where "exchangeBusyPromise s = Some j"
    and "s' = s\<lparr>write_stream := write_stream s @ [(j, f)], to_write := (to_write s)(j := fs)\<rparr>"
    by (auto split: option.splits list.splits)
  with lock_inv_written [OF assms(1)] show ?thesis by simp
next
  case JobSettled
  with assms(2) obtain j where "exchangeBusyPromise s = Some j" and "s' = release j s"
    by (auto split: option.splits)
  with lock_inv_release [OF assms(1)] show ?thesis by simp
next
  case CloseCalled
  with assms(2) have "s' = s\<lparr>closes := closes s @ [exchangeBusyPromise s]\<rparr>" by auto
  with lock_inv_close_called [OF assms(1)] show ?thesis by simp
next
  case (CloseReturned c)
  with assms(2) have "c < length (closes s)"
    and "case closes s ! c of None \<Rightarrow> True | Some j \<Rightarrow> j \<in> set (settled s)"
    and "s' = s\<lparr>returned := returned s @ [c]\<rparr>"
    by (auto simp: close_def split: if_splits option.splits)
  with lock_inv_close_returned [OF assms(1)] show ?thesis by simp
next
  case LinkDropped
  with assms(2) have "s' = s\<lparr>link := Disconnected\<rparr>" by auto
  with lock_inv_link_dropped [OF assms(1)] show ?thesis by simp
qed

lemma lock_inv_steps: "lock_inv s \<Longrightarrow> steps evs s = Some s' \<Longrightarrow> lock_inv s'"
proof (induction evs arbitrary: s)
  case Nil
  then show ?case by simp
next
  case (Cons ev evs)
  from Cons.prems(2) obtain s1 where 1: "step ev s = Some s1" and 2: "steps evs s1 = Some s'"
    by (cases "step ev s") simp_all
  from Cons.IH [OF lock_inv_step [OF Cons.prems(1) 1] 2] show ?case .
qed

lemma sorted_between:
  assumes "sorted (xs :: nat list)" and "i \<le> k" and "k \<le> m" and "m < length xs" and "xs ! i = xs ! m"
  shows "xs ! k = xs ! i"
proof -
  from assms have "xs ! i \<le> xs ! k" by (intro sorted_nth_mono) simp_all
  moreover from assms have "xs ! k \<le> xs ! m" by (intro sorted_nth_mono) simp_all
  ultimately show ?thesis using assms(5) by simp
qed

text \<open>Claim C7: on one transport the jobs (exchanges and the negotiation) get the lock one
  at a time in the order of their calls, so the jobs that have settled, the job that runs
  and the jobs that wait are the calls \<open>0, 1, 2, \<dots>\<close> in this order; the write stream is
  ordered by job, so whenever two frames of the stream come from the same call, every
  frame between them comes from that call too.\<close>

theorem exchanges_do_not_interleave:
  assumes "steps evs constructed = Some s"
  shows "service_order s = [0..<calls s] \<and>
    sorted (map fst (write_stream s)) \<and>
    (\<forall>i k m. i \<le> k \<and> k \<le> m \<and> m < length (write_stream s) \<and>
       fst (write_stream s ! i) = fst (write_stream s ! m) \<longrightarrow>
       fst (write_stream s ! k) = fst (write_stream s ! i))"
proof (intro conjI allI impI)
  have inv: "lock_inv s" by (rule lock_inv_steps [OF lock_inv_constructed assms])
  show "service_order s = [0..<calls s]" by (rule lock_invD(1) [OF inv])
  show srt: "sorted (map fst (write_stream s))" by (rule lock_invD(4) [OF inv])
  fix i k m
  assume h: "i \<le> k \<and> k \<le> m \<and> m < length (write_stream s) \<and>
       fst (write_stream s ! i) = fst (write_stream s ! m)"
  then have "map fst (write_stream s) ! i = map fst (write_stream s) ! m" by simp
  from sorted_between [OF srt _ _ _ this, of k] h
  show "fst (write_stream s ! k) = fst (write_stream s ! i)" by simp
qed

lemma close_returned_blocked:
  "c < length (closes s) \<Longrightarrow> closes s ! c = Some j \<Longrightarrow> j \<notin> set (settled s) \<Longrightarrow>
   step (CloseReturned c) s = None"
  by (simp add: close_def)

lemma close_steps_frame:
  "step CloseCalled s = Some s' \<Longrightarrow> link s' = link s \<and> write_stream s' = write_stream s"
  "step (CloseReturned c) s = Some s' \<Longrightarrow> link s' = link s \<and> write_stream s' = write_stream s"
  by (auto split: if_splits)

text \<open>Claim C8: a call of \<^verbatim>\<open>close\<close> that has returned found either no exchange under
  way or an exchange that has settled since; as long as the exchange it found has not
  settled, it cannot return; and neither the call nor the return of \<^verbatim>\<open>close\<close> changes
  the state of the link or writes to it.\<close>

theorem close_waits_and_keeps_link:
  assumes "steps evs constructed = Some s"
  shows "(\<forall>c\<in>set (returned s). c < length (closes s) \<and>
      (\<forall>j. closes s ! c = Some j \<longrightarrow> j \<in> set (settled s))) \<and>
   (\<forall>c j. c < length (closes s) \<and> closes s ! c = Some j \<and> j \<notin> set (settled s) \<longrightarrow>
      step (CloseReturned c) s = None) \<and>
   (\<forall>s'. step CloseCalled s = Some s' \<longrightarrow> link s' = link s \<and> write_stream s' = write_stream s) \<and>
   (\<forall>c s'. step (CloseReturned c) s = Some s' \<longrightarrow> link s' = link s \<and> write_stream s' = write_stream s)"
proof (intro conjI ballI allI impI)
  have inv: "lock_inv s" by (rule lock_inv_steps [OF lock_inv_constructed assms])
  fix c assume "c \<in> set (returned s)"
  from lock_invD(5) [OF inv this]
  show "c < length (closes s)" and "\<And>j. closes s ! c = Some j \<Longrightarrow> j \<in> set (settled s)"
    by simp_all
next
  fix c j assume "c < length (closes s) \<and> closes s ! c = Some j \<and> j \<notin> set (settled s)"
  then show "step (CloseReturned c) s = None" by (simp add: close_def)
next
  fix s' assume "step CloseCalled s = Some s'"
  from close_steps_frame(1) [OF this] show "link s' = link s" and "write_stream s' = write_stream s"
    by simp_all
next
  fix c s' assume "step (CloseReturned c) s = Some s'"
  from close_steps_frame(2) [OF this] show "link s' = link s" and "write_stream s' = write_stream s"
    by simp_all
qed

lemma two_exchanges_run:
  "\<exists>s. steps two_exchanges constructed = Some s \<and>
     write_stream s = [(0, [5, 0, 0]), (0, [5, 0, 1]), (1, [5, 0, 0])] \<and>
     settled s = [0, 1] \<and> closes s = [Some 0] \<and> returned s = [0] \<and> link s = Connected \<and> calls s = 2
     \<and> exchangeBusyPromise s = None \<and> waiting s = []"
  by (simp add: two_exchanges_def constructed_def enter_def release_def close_def Let_def)



theorem exchanges_do_not_interleave_witness:
  "\<exists>s. steps two_exchanges constructed = Some s \<and>
     map fst (write_stream s) = [0, 0, 1] \<and> sorted (map fst (write_stream s)) \<and>
     service_order s = [0..<calls s] \<and> calls s = 2"
proof -
  from two_exchanges_run obtain s where s: "steps two_exchanges constructed = Some s"
    and w: "write_stream s = [(0, [5, 0, 0]), (0, [5, 0, 1]), (1, [5, 0, 0])]" and c: "calls s = 2"
    by blast
  from exchanges_do_not_interleave [OF s]
  have "service_order s = [0..<calls s]" and "sorted (map fst (write_stream s))" by simp_all
  with s w c show ?thesis by simp
qed

theorem close_waits_and_keeps_link_witness:
  "(\<exists>s. steps two_exchanges constructed = Some s \<and>
      returned s = [0] \<and> closes s = [Some 0] \<and> 0 \<in> set (settled s) \<and> link s = Connected) \<and>
   steps [ExchangeCalled [[5, 0, 0], [5, 0, 1]], CloseCalled, FrameWritten, CloseReturned 0] constructed = None"
proof -
  from two_exchanges_run obtain s where s: "steps two_exchanges constructed = Some s"
    and r: "returned s = [0]" and c: "closes s = [Some 0]" and l: "link s = Connected"
    by blast
  from close_waits_and_keeps_link [OF s] r c have "0 \<in> set (settled s)" by simp
  with s r c l have "\<exists>s. steps two_exchanges constructed = Some s \<and>
      returned s = [0] \<and> closes s = [Some 0] \<and> 0 \<in> set (settled s) \<and> link s = Connected"
    by blast
  moreover have "steps [ExchangeCalled [[5, 0, 0], [5, 0, 1]], CloseCalled, FrameWritten, CloseReturned 0] constructed = None"
    by (simp add: constructed_def enter_def close_def Let_def)
  ultimately show ?thesis by simp
qed

end
